theory Spec2Isabelle
  imports Complex_Main
begin

section \<open>Data model\<close>

text \<open>
  The two source files, \<^verbatim>\<open>my_model_selectors.py\<close> and \<^verbatim>\<open>my_recognizer.py\<close>, are embedded
  as HOL functions. Everything that can raise returns a sum, \<open>Inl\<close> carrying the exception;
  a Python value that may be \<^verbatim>\<open>None\<close> is an \<open>option\<close>.

  Log-likelihoods returned by the external scorer are taken as real numbers (rounding and
  overflow of the 64-bit floats are not modelled). The two special floats the code itself
  produces are kept: \<^verbatim>\<open>float("-Infinity")\<close> in the recognizer and the \<^verbatim>\<open>nan\<close> that
  \<^verbatim>\<open>np.mean([])\<close> returns in the cross-validation selector.
\<close>

datatype error =
    NotImplementedError
  | ValueError
  | AttributeError
  | IndexError
  | KeyError
  | UnboundLocalError
  | TrainerError

datatype pyfloat = NaN | NInf | Fin real

text \<open>Python's \<^verbatim>\<open>a > b\<close> on floats: every comparison with \<^verbatim>\<open>nan\<close> is false.\<close>

fun py_gt :: "pyfloat \<Rightarrow> pyfloat \<Rightarrow> bool" where
  "py_gt (Fin a) (Fin b) = (a > b)"
| "py_gt (Fin a) NInf = True"
| "py_gt _ _ = False"

type_synonym observations = "real list list"
type_synonym sequence_set = "real list list list"
type_synonym fold = "nat list \<times> nat list"

text \<open>
  The external collaborators: \<^verbatim>\<open>GaussianHMM(n_components, random_state).fit(X, lengths)\<close>,
  \<^verbatim>\<open>model.score(X, lengths)\<close> and \<^verbatim>\<open>KFold(shuffle=True, random_state).split(sequences)\<close>.
  They are parameters of the embedding; \<open>Inl\<close> is a raised exception.
\<close>

record 'm trainer =
  fit :: "int \<Rightarrow> int \<Rightarrow> observations \<Rightarrow> nat list \<Rightarrow> error + 'm"
  score :: "'m \<Rightarrow> observations \<Rightarrow> nat list \<Rightarrow> error + real"
  kfold_split :: "int \<Rightarrow> sequence_set \<Rightarrow> error + fold list"

text \<open>The fields of a \<^verbatim>\<open>ModelSelector\<close> object, as \<^verbatim>\<open>__init__\<close> sets them.\<close>

record selector =
  words :: "(string \<times> sequence_set) list"
  hwords :: "(string \<times> observations \<times> nat list) list"
  sequences :: sequence_set
  X :: observations
  lengths :: "nat list"
  this_word :: string
  n_constant :: int
  min_n_components :: int
  max_n_components :: int
  random_state :: int
  verbose :: bool

datatype selector_class = SelectorConstant | SelectorBIC | SelectorDIC | SelectorCV

section \<open>Python built-ins and helpers\<close>

text \<open>\<^verbatim>\<open>d[k]\<close> on a dictionary kept as an association list in insertion order.\<close>

definition dict_get :: "('k \<times> 'v) list \<Rightarrow> 'k \<Rightarrow> error + 'v" where
  "dict_get d k = (case map_of d k of None \<Rightarrow> Inl KeyError | Some v \<Rightarrow> Inr v)"

text \<open>\<^verbatim>\<open>d[k] = v\<close>: an existing key keeps its position, a new key goes to the end.\<close>

fun dict_set :: "('k \<times> 'v) list \<Rightarrow> 'k \<Rightarrow> 'v \<Rightarrow> ('k \<times> 'v) list" where
  "dict_set [] k v = [(k, v)]"
| "dict_set ((k', v') # d) k v = (if k' = k then (k, v) # d else (k', v') # dict_set d k v)"

text \<open>
  \<^verbatim>\<open>max(xs, key=f)\<close>: \<^verbatim>\<open>ValueError\<close> on an empty iterable; otherwise the first element is
  the running best and a later element replaces it only when its key is greater.
\<close>

fun max_loop :: "('a \<Rightarrow> error + pyfloat) \<Rightarrow> 'a list \<Rightarrow> 'a \<Rightarrow> pyfloat \<Rightarrow> error + 'a" where
  "max_loop key [] best kb = Inr best"
| "max_loop key (y # ys) best kb =
     (case key y of
        Inl e \<Rightarrow> Inl e
      | Inr ky \<Rightarrow> if py_gt ky kb then max_loop key ys y ky else max_loop key ys best kb)"

definition py_max_key :: "('a \<Rightarrow> error + pyfloat) \<Rightarrow> 'a list \<Rightarrow> error + 'a" where
  "py_max_key key xs =
     (case xs of
        [] \<Rightarrow> Inl ValueError
      | x # ys \<Rightarrow> (case key x of Inl e \<Rightarrow> Inl e | Inr kx \<Rightarrow> max_loop key ys x kx))"

text \<open>\<^verbatim>\<open>np.mean\<close> of a list of floats; the mean of an empty list is \<^verbatim>\<open>nan\<close> (with a warning).\<close>

definition np_mean :: "real list \<Rightarrow> pyfloat" where
  "np_mean xs = (if xs = [] then NaN else Fin (sum_list xs / real (length xs)))"

text \<open>
  Modelled from the spec: \<^verbatim>\<open>asl_utils.combine_sequences\<close> is not among the source files.
  The spec has it concatenate the sequences at the given indices into one observation
  matrix, paired with the list of their lengths. An index out of range raises.
\<close>

fun combine_sequences :: "nat list \<Rightarrow> sequence_set \<Rightarrow> error + (observations \<times> nat list)" where
  "combine_sequences [] seqs = Inr ([], [])"
| "combine_sequences (i # idx) seqs =
     (if i < length seqs
      then (case combine_sequences idx seqs of
              Inl e \<Rightarrow> Inl e
            | Inr (obs, lens) \<Rightarrow> Inr (seqs ! i @ obs, length (seqs ! i) # lens))
      else Inl IndexError)"

text \<open>\<^verbatim>\<open>model.score(X, lengths)\<close> where \<^verbatim>\<open>model\<close> may be \<^verbatim>\<open>None\<close>.\<close>

definition model_score ::
  "'m trainer \<Rightarrow> 'm option \<Rightarrow> observations \<Rightarrow> nat list \<Rightarrow> error + real" where
  "model_score T model obs lens =
     (case model of None \<Rightarrow> Inl AttributeError | Some m \<Rightarrow> score T m obs lens)"

section \<open>ModelSelector\<close>

definition init ::
  "(string \<times> sequence_set) list \<Rightarrow> (string \<times> observations \<times> nat list) list \<Rightarrow> string \<Rightarrow>
   int \<Rightarrow> int \<Rightarrow> int \<Rightarrow> int \<Rightarrow> bool \<Rightarrow> error + selector" where
  "init all_word_sequences all_word_Xlengths word n_const min_n max_n seed verb =
     (case dict_get all_word_sequences word of
        Inl e \<Rightarrow> Inl e
      | Inr seqs \<Rightarrow>
          (case dict_get all_word_Xlengths word of
             Inl e \<Rightarrow> Inl e
           | Inr (obs, lens) \<Rightarrow>
               Inr \<lparr>words = all_word_sequences, hwords = all_word_Xlengths,
                    sequences = seqs, X = obs, lengths = lens, this_word = word,
                    n_constant = n_const, min_n_components = min_n,
                    max_n_components = max_n, random_state = seed, verbose = verb\<rparr>))"

definition ModelSelector_select :: "'m trainer \<Rightarrow> selector \<Rightarrow> error + 'm option" where
  "ModelSelector_select T s = Inl NotImplementedError"

text \<open>
  \<^verbatim>\<open>base_model\<close>: the bare \<^verbatim>\<open>except:\<close> turns every exception of the fit into \<^verbatim>\<open>None\<close>.
  The diagnostic prints under \<^verbatim>\<open>verbose\<close> have no effect on the result.
\<close>

definition base_model :: "'m trainer \<Rightarrow> selector \<Rightarrow> int \<Rightarrow> error + 'm option" where
  "base_model T s num_states =
     (case fit T num_states (random_state s) (X s) (lengths s) of
        Inr hmm_model \<Rightarrow> Inr (Some hmm_model)
      | Inl e \<Rightarrow> Inr None)"

section \<open>SelectorConstant\<close>

definition SelectorConstant_select :: "'m trainer \<Rightarrow> selector \<Rightarrow> error + 'm option" where
  "SelectorConstant_select T s = (let best_num_components = n_constant s
                                  in base_model T s best_num_components)"

section \<open>SelectorBIC\<close>

text \<open>The body of the \<^verbatim>\<open>try\<close> for one candidate: the pair appended to \<^verbatim>\<open>n_state_scores\<close>.\<close>

definition BIC_try :: "'m trainer \<Rightarrow> selector \<Rightarrow> int \<Rightarrow> error + (pyfloat \<times> 'm option)" where
  "BIC_try T s n_states =
     (case base_model T s n_states of
        Inl e \<Rightarrow> Inl e
      | Inr model \<Rightarrow>
          (case model_score T model (X s) (lengths s) of
             Inl e \<Rightarrow> Inl e
           | Inr logL \<Rightarrow>
               (let N = length (X s) in
                case X s of
                  [] \<Rightarrow> Inl IndexError
                | row # _ \<Rightarrow>
                    (let p = n_states ^ 2 + 2 * int (length row) * n_states - 1;
                         BIC = - 2 * logL + real_of_int p * ln (real N)
                     in Inr (Fin BIC, model)))))"

fun BIC_loop ::
  "'m trainer \<Rightarrow> selector \<Rightarrow> int list \<Rightarrow> (pyfloat \<times> 'm option) list \<Rightarrow> (pyfloat \<times> 'm option) list" where
  "BIC_loop T s [] n_state_scores = n_state_scores"
| "BIC_loop T s (n_states # ns) n_state_scores =
     BIC_loop T s ns
       (case BIC_try T s n_states of
          Inl e \<Rightarrow> n_state_scores
        | Inr entry \<Rightarrow> n_state_scores @ [entry])"

definition SelectorBIC_select :: "'m trainer \<Rightarrow> selector \<Rightarrow> error + 'm option" where
  "SelectorBIC_select T s =
     (let n_state_scores = BIC_loop T s [min_n_components s .. max_n_components s] []
      in if length n_state_scores = 0 then Inr None
         else (case py_max_key (\<lambda>x. Inr (fst x)) n_state_scores of
                 Inl e \<Rightarrow> Inl e
               | Inr best \<Rightarrow> Inr (snd best)))"

section \<open>SelectorDIC\<close>

definition SelectorDIC_select :: "'m trainer \<Rightarrow> selector \<Rightarrow> error + 'm option" where
  "SelectorDIC_select T s = Inl NotImplementedError"

section \<open>SelectorCV\<close>

text \<open>
  The state the loops of \<^verbatim>\<open>SelectorCV.select\<close> change: the selector (its \<^verbatim>\<open>X\<close> and
  \<^verbatim>\<open>lengths\<close> are reassigned per fold), the local variable \<^verbatim>\<open>model\<close> (\<open>None\<close> while it
  is unbound; it survives from one candidate to the next) and the list \<^verbatim>\<open>n_state_scores\<close>.
\<close>

type_synonym 'm cv_state = "selector \<times> 'm option option \<times> (pyfloat \<times> 'm option) list"

text \<open>
  The fold loop for one candidate. The result is the exception that ended it, if any, the
  selector and \<^verbatim>\<open>model\<close> as the loop left them, and \<^verbatim>\<open>cv_scores\<close>.
\<close>

fun CV_folds ::
  "'m trainer \<Rightarrow> int \<Rightarrow> fold list \<Rightarrow> selector \<Rightarrow> 'm option option \<Rightarrow> real list \<Rightarrow>
   error option \<times> selector \<times> 'm option option \<times> real list" where
  "CV_folds T n_states [] s model cv_scores = (None, s, model, cv_scores)"
| "CV_folds T n_states ((cv_train_idx, cv_test_idx) # folds) s model cv_scores =
     (case combine_sequences cv_train_idx (sequences s) of
        Inl e \<Rightarrow> (Some e, s, model, cv_scores)
      | Inr (X_train, lengths_train) \<Rightarrow>
          (let s1 = s\<lparr>X := X_train, lengths := lengths_train\<rparr> in
           case combine_sequences cv_test_idx (sequences s1) of
             Inl e \<Rightarrow> (Some e, s1, model, cv_scores)
           | Inr (X_test, lengths_test) \<Rightarrow>
               (case base_model T s1 n_states of
                  Inl e \<Rightarrow> (Some e, s1, model, cv_scores)
                | Inr model1 \<Rightarrow>
                    (case model_score T model1 X_test lengths_test of
                       Inl e \<Rightarrow> (Some e, s1, Some model1, cv_scores)
                     | Inr sc \<Rightarrow>
                         CV_folds T n_states folds s1 (Some model1) (cv_scores @ [sc])))))"

text \<open>
  One pass of the candidate loop. With fewer than 3 sequences the pair of the single score
  is appended; the append after the \<^verbatim>\<open>if\<close>/\<^verbatim>\<open>else\<close> runs on both branches, so that
  branch appends a second pair, \<^verbatim>\<open>(np.mean([]), model)\<close>, as well. Any exception leaves
  the pass at once (\<^verbatim>\<open>except Exception\<close> prints it).
\<close>

definition CV_try :: "'m trainer \<Rightarrow> int \<Rightarrow> 'm cv_state \<Rightarrow> 'm cv_state" where
  "CV_try T n_states st =
     (case st of (s, model, n_state_scores) \<Rightarrow>
        if length (sequences s) < 3 then
          (case base_model T s n_states of
             Inl e \<Rightarrow> (s, model, n_state_scores)
           | Inr model1 \<Rightarrow>
               (case model_score T model1 (X s) (lengths s) of
                  Inl e \<Rightarrow> (s, Some model1, n_state_scores)
                | Inr sc \<Rightarrow>
                    (s, Some model1,
                     (n_state_scores @ [(Fin sc, model1)]) @ [(np_mean [], model1)])))
        else
          (case kfold_split T (random_state s) (sequences s) of
             Inl e \<Rightarrow> (s, model, n_state_scores)
           | Inr folds \<Rightarrow>
               (case CV_folds T n_states folds s model [] of
                  (Some e, s1, model1, cv_scores) \<Rightarrow> (s1, model1, n_state_scores)
                | (None, s1, model1, cv_scores) \<Rightarrow>
                    (case model1 of
                       None \<Rightarrow> (s1, model1, n_state_scores)
                     | Some m \<Rightarrow> (s1, model1, n_state_scores @ [(np_mean cv_scores, m)])))))"

fun CV_loop :: "'m trainer \<Rightarrow> int list \<Rightarrow> 'm cv_state \<Rightarrow> 'm cv_state" where
  "CV_loop T [] st = st"
| "CV_loop T (n_states # ns) st = CV_loop T ns (CV_try T n_states st)"

definition SelectorCV_select :: "'m trainer \<Rightarrow> selector \<Rightarrow> (error + 'm option) \<times> selector" where
  "SelectorCV_select T s =
     (case CV_loop T [min_n_components s .. max_n_components s] (s, None, []) of
        (s1, model, n_state_scores) \<Rightarrow>
          (if length n_state_scores = 0 then Inr None
           else (case py_max_key (\<lambda>x. Inr (fst x)) n_state_scores of
                   Inl e \<Rightarrow> Inl e
                 | Inr best \<Rightarrow> Inr (snd best)),
           s1))"

section \<open>The strategy family\<close>

text \<open>
  \<^verbatim>\<open>select()\<close> dispatched on the class of the object. The result is what the call returns
  or raises, with the selector as the call leaves it.
\<close>

fun select :: "selector_class \<Rightarrow> 'm trainer \<Rightarrow> selector \<Rightarrow> (error + 'm option) \<times> selector" where
  "select SelectorConstant T s = (SelectorConstant_select T s, s)"
| "select SelectorBIC T s = (SelectorBIC_select T s, s)"
| "select SelectorDIC T s = (SelectorDIC_select T s, s)"
| "select SelectorCV T s = SelectorCV_select T s"

section \<open>recognize\<close>

text \<open>
  Modelled from the spec: the class \<^verbatim>\<open>SinglesData\<close> is not among the source files. The
  spec gives the test set as a sequence of items, each an observation matrix with its
  lengths: \<^verbatim>\<open>get_all_sequences()\<close> has one entry per item and
  \<^verbatim>\<open>get_item_Xlengths(i)\<close> is item \<open>i\<close>.
\<close>

type_synonym test_set = "(observations \<times> nat list) list"

text \<open>The inner loop over \<^verbatim>\<open>models.items()\<close>, filling \<^verbatim>\<open>world_LogLvalues\<close>.\<close>

fun score_words ::
  "'m trainer \<Rightarrow> (string \<times> 'm) list \<Rightarrow> observations \<Rightarrow> nat list \<Rightarrow>
   (string \<times> pyfloat) list \<Rightarrow> (string \<times> pyfloat) list" where
  "score_words T [] sequence lens world_LogLvalues = world_LogLvalues"
| "score_words T ((word, model) # items) sequence lens world_LogLvalues =
     score_words T items sequence lens
       (case score T model sequence lens of
          Inr v \<Rightarrow> dict_set world_LogLvalues word (Fin v)
        | Inl e \<Rightarrow> dict_set world_LogLvalues word NInf)"

text \<open>The outer loop over \<^verbatim>\<open>range(len(test_set.get_all_sequences()))\<close>.\<close>

fun recognize_loop ::
  "'m trainer \<Rightarrow> (string \<times> 'm) list \<Rightarrow> test_set \<Rightarrow> nat list \<Rightarrow>
   (string \<times> pyfloat) list list \<times> string list \<Rightarrow>
   error + ((string \<times> pyfloat) list list \<times> string list)" where
  "recognize_loop T models test_set [] (probabilities, guesses) = Inr (probabilities, guesses)"
| "recognize_loop T models test_set (word_id # ids) (probabilities, guesses) =
     (case test_set ! word_id of (sequence, lens) \<Rightarrow>
        (let world_LogLvalues = score_words T models sequence lens [] in
         case py_max_key (\<lambda>x. dict_get world_LogLvalues x) (map fst world_LogLvalues) of
           Inl e \<Rightarrow> Inl e
         | Inr guess \<Rightarrow>
             recognize_loop T models test_set ids
               (probabilities @ [world_LogLvalues], guesses @ [guess])))"

definition recognize ::
  "'m trainer \<Rightarrow> (string \<times> 'm) list \<Rightarrow> test_set \<Rightarrow>
   error + ((string \<times> pyfloat) list list \<times> string list)" where
  "recognize T models test_set = recognize_loop T models test_set [0 ..< length test_set] ([], [])"

section \<open>Specification-side notions\<close>

text \<open>
  The notions below are not code: they say, in the spec's words, what the recorded value of a
  word is and what it means for a guess to be the first maximum of a profile.
\<close>

definition recorded :: "'m trainer \<Rightarrow> 'm \<Rightarrow> observations \<Rightarrow> nat list \<Rightarrow> pyfloat" where
  "recorded T model sequence lens =
     (case score T model sequence lens of Inr v \<Rightarrow> Fin v | Inl e \<Rightarrow> NInf)"

definition profile_of ::
  "'m trainer \<Rightarrow> (string \<times> 'm) list \<Rightarrow> observations \<times> nat list \<Rightarrow> (string \<times> pyfloat) list" where
  "profile_of T models item = map (\<lambda>(w, m). (w, recorded T m (fst item) (snd item))) models"

text \<open>
  \<open>g\<close> is the key at some position \<open>j\<close> of the profile, no value of the profile is greater
  than the one at \<open>j\<close>, and the one at \<open>j\<close> is greater than every value before it.
\<close>

definition first_argmax :: "('k \<times> pyfloat) list \<Rightarrow> 'k \<Rightarrow> bool" where
  "first_argmax profile g =
     (\<exists>j\<in>{..<length profile}. fst (profile ! j) = g \<and>
        (\<forall>l\<in>{..<length profile}. \<not> py_gt (snd (profile ! l)) (snd (profile ! j))) \<and>
        (\<forall>l\<in>{..<j}. py_gt (snd (profile ! j)) (snd (profile ! l))))"

text \<open>
  The feature dimensionality \<open>d\<close> of an observation matrix: the length of its first row.
\<close>

definition feature_dim :: "observations \<Rightarrow> nat" where
  "feature_dim obs = (case obs of [] \<Rightarrow> 0 | row # _ \<Rightarrow> length row)"

text \<open>
  The spec's criterion for a candidate \<open>n\<close>: when the fit on the word's data and the
  scoring of that data succeed, \<open>BIC = -2 logL + p ln N\<close> with \<open>p = n\<^sup>2 + 2 d n - 1\<close>,
  together with the fitted model.
\<close>

definition bic_spec :: "'m trainer \<Rightarrow> selector \<Rightarrow> int \<Rightarrow> (real \<times> 'm) option" where
  "bic_spec T s n =
     (case fit T n (random_state s) (X s) (lengths s) of
        Inl e \<Rightarrow> None
      | Inr m \<Rightarrow>
          (case score T m (X s) (lengths s) of
             Inl e \<Rightarrow> None
           | Inr logL \<Rightarrow>
               Some (- 2 * logL +
                       real_of_int (n\<^sup>2 + 2 * int (feature_dim (X s)) * n - 1) *
                         ln (real (length (X s))),
                     m)))"

text \<open>A successful candidate as the pair a selector's loop appends for it.\<close>

definition entry_of :: "real \<times> 'm \<Rightarrow> pyfloat \<times> 'm option" where
  "entry_of c = (Fin (fst c), Some (snd c))"

text \<open>The last step of both searching selectors, on the list their loop has built.\<close>

definition pick_best :: "(pyfloat \<times> 'm option) list \<Rightarrow> error + 'm option" where
  "pick_best n_state_scores =
     (if length n_state_scores = 0 then Inr None
      else (case py_max_key (\<lambda>x. Inr (fst x)) n_state_scores of
              Inl e \<Rightarrow> Inl e
            | Inr best \<Rightarrow> Inr (snd best)))"

text \<open>
  One fold of the cross-validation for a candidate \<open>n\<close>, in the spec's words: the model
  fitted on the concatenated training sequences and its log-likelihood on the concatenated
  held-out sequences, when every step succeeds.
\<close>

definition fold_result :: "'m trainer \<Rightarrow> selector \<Rightarrow> int \<Rightarrow> fold \<Rightarrow> (real \<times> 'm) option" where
  "fold_result T s n f =
     (case combine_sequences (fst f) (sequences s) of
        Inl e \<Rightarrow> None
      | Inr (X_train, lengths_train) \<Rightarrow>
          (case combine_sequences (snd f) (sequences s) of
             Inl e \<Rightarrow> None
           | Inr (X_test, lengths_test) \<Rightarrow>
               (case fit T n (random_state s) X_train lengths_train of
                  Inl e \<Rightarrow> None
                | Inr m \<Rightarrow>
                    (case score T m X_test lengths_test of
                       Inl e \<Rightarrow> None
                     | Inr sc \<Rightarrow> Some (sc, m)))))"

text \<open>
  The spec's quality of a candidate \<open>n\<close>, with the model associated with it. Below three
  sequences: the single score of the single fit on the full data. Otherwise: the arithmetic
  mean of the per-fold log-likelihoods with the model of the last fold, when the split and
  every fold succeed.
\<close>

definition cv_quality :: "'m trainer \<Rightarrow> selector \<Rightarrow> int \<Rightarrow> (real \<times> 'm) option" where
  "cv_quality T s n =
     (if length (sequences s) < 3 then
        (case fit T n (random_state s) (X s) (lengths s) of
           Inl e \<Rightarrow> None
         | Inr m \<Rightarrow>
             (case score T m (X s) (lengths s) of
                Inl e \<Rightarrow> None
              | Inr sc \<Rightarrow> Some (sc, m)))
      else
        (case kfold_split T (random_state s) (sequences s) of
           Inl e \<Rightarrow> None
         | Inr folds \<Rightarrow>
             (case those (map (fold_result T s n) folds) of
                None \<Rightarrow> None
              | Some rs \<Rightarrow> Some (sum_list (map fst rs) / real (length rs), snd (last rs)))))"

text \<open>
  The fold at which the fold loop of candidate \<open>n\<close> stops: the first fold that fails, or
  the last fold when none does.
\<close>

fun last_evaluated :: "'m trainer \<Rightarrow> selector \<Rightarrow> int \<Rightarrow> fold list \<Rightarrow> fold option" where
  "last_evaluated T s n [] = None"
| "last_evaluated T s n (f # fs) =
     (if fold_result T s n f = None \<or> fs = [] then Some f else last_evaluated T s n fs)"

text \<open>What one pass of the candidate loop of \<^verbatim>\<open>SelectorCV.select\<close> appends.\<close>

definition cv_entries :: "'m trainer \<Rightarrow> selector \<Rightarrow> int \<Rightarrow> (pyfloat \<times> 'm option) list" where
  "cv_entries T s n =
     (case cv_quality T s n of
        None \<Rightarrow> []
      | Some c \<Rightarrow>
          if length (sequences s) < 3 then [entry_of c, (NaN, Some (snd c))] else [entry_of c])"

text \<open>
  Two runs of the external library, as far as a seed decides them: the two trainers give
  the same fit and the same fold split whenever they are called with this seed, and score
  alike. On calls with any other seed they may differ.
\<close>

definition same_seeded :: "int \<Rightarrow> 'm trainer \<Rightarrow> 'm trainer \<Rightarrow> bool" where
  "same_seeded seed T1 T2 =
     ((\<forall>n obs lens. fit T1 n seed obs lens = fit T2 n seed obs lens) \<and>
      (\<forall>seqs. kfold_split T1 seed seqs = kfold_split T2 seed seqs) \<and>
      (\<forall>m obs lens. score T1 m obs lens = score T2 m obs lens))"

section \<open>Concrete inputs\<close>

text \<open>
  A deterministic stand-in for the trainer. A model is its state count with the feature
  dimension of the data it was fitted on. A fit fails on empty data, for fewer than one
  state and for fewer observation rows than states; a score fails on empty data and on data
  of another feature dimension; the split fails below three sequences and yields three
  folds otherwise.
\<close>

definition stub_trainer :: "(int \<times> nat) trainer" where
  "stub_trainer =
     \<lparr>fit = (\<lambda>n seed obs lens.
              case obs of
                [] \<Rightarrow> Inl TrainerError
              | row # _ \<Rightarrow>
                  if n < 1 \<or> int (length obs) < n then Inl TrainerError
                  else Inr (n, length row)),
      score = (\<lambda>m obs lens.
              case obs of
                [] \<Rightarrow> Inl TrainerError
              | row # _ \<Rightarrow>
                  if length row \<noteq> snd m then Inl TrainerError
                  else Inr (real_of_int (fst m * (6 - fst m)) - real (length obs))),
      kfold_split = (\<lambda>seed seqs.
              if length seqs < 3 then Inl ValueError
              else Inr [([1, 2], [0]), ([0, 2], [1]), ([0, 1], [2])])\<rparr>"

text \<open>The same stand-in with a fit that fails for every requested state count.\<close>

definition failing_trainer :: "(int \<times> nat) trainer" where
  "failing_trainer = stub_trainer\<lparr>fit := (\<lambda>n seed obs lens. Inl TrainerError)\<rparr>"

definition words0 :: "(string \<times> sequence_set) list" where
  "words0 = [(''A'', [[[0], [1]], [[2]], [[3], [4]]]), (''B'', [[[5]], [[6]]])]"

definition hwords0 :: "(string \<times> observations \<times> nat list) list" where
  "hwords0 = [(''A'', ([[0], [1], [2], [3], [4]], [2, 1, 2])), (''B'', ([[5], [6]], [1, 1]))]"

definition selector0 :: selector where
  "selector0 =
     \<lparr>words = words0, hwords = hwords0, sequences = [[[0], [1]], [[2]], [[3], [4]]],
      X = [[0], [1], [2], [3], [4]], lengths = [2, 1, 2], this_word = ''A'',
      n_constant = 3, min_n_components = 2, max_n_components = 4, random_state = 14,
      verbose = False\<rparr>"

text \<open>A word with two sequences, below the threshold of the fold loop.\<close>

definition selector1 :: selector where
  "selector1 =
     \<lparr>words = words0, hwords = hwords0, sequences = [[[5]], [[6]]],
      X = [[5], [6]], lengths = [1, 1], this_word = ''B'',
      n_constant = 3, min_n_components = 2, max_n_components = 4, random_state = 14,
      verbose = False\<rparr>"

text \<open>
  A second run of the stand-in: it answers as the first when seeded with 14, and fails
  when called with any other seed.
\<close>

definition other_run_trainer :: "(int \<times> nat) trainer" where
  "other_run_trainer =
     stub_trainer
       \<lparr>fit := (\<lambda>n seed obs lens.
                 if seed = 14 then fit stub_trainer n seed obs lens else Inl TrainerError),
        kfold_split := (\<lambda>seed seqs.
                 if seed = 14 then kfold_split stub_trainer seed seqs else Inl ValueError)\<rparr>"

text \<open>
  The stand-in with a split into five folds, which raises below five sequences.
\<close>

definition five_fold_trainer :: "(int \<times> nat) trainer" where
  "five_fold_trainer =
     stub_trainer
       \<lparr>kfold_split := (\<lambda>seed seqs.
                 if length seqs < 5 then Inl ValueError
                 else Inr [([1, 2, 3, 4], [0]), ([0, 2, 3, 4], [1]), ([0, 1, 3, 4], [2]),
                           ([0, 1, 2, 4], [3]), ([0, 1, 2, 3], [4])])\<rparr>"

definition models0 :: "(string \<times> int \<times> nat) list" where
  "models0 = [(''A'', (1, 1)), (''B'', (3, 2)), (''C'', (2, 1))]"

definition test_set0 :: test_set where
  "test_set0 = [([[0]], [1]), ([[0, 0], [1, 1], [2, 2]], [3])]"

section \<open>Facts about the built-ins\<close>

lemma py_gt_trans_aux:
  "\<not> py_gt a b \<Longrightarrow> py_gt a c \<Longrightarrow> a \<noteq> NaN \<Longrightarrow> b \<noteq> NaN \<Longrightarrow> c \<noteq> NaN \<Longrightarrow> py_gt b c"
  by (cases a; cases b; cases c) auto

lemma py_gt_not_NaN: "py_gt a b \<Longrightarrow> a \<noteq> NaN \<and> b \<noteq> NaN"
  by (cases a; cases b) auto

lemma py_gt_trans2:
  "py_gt b c \<Longrightarrow> \<not> py_gt a c \<Longrightarrow> a \<noteq> NaN \<Longrightarrow> py_gt b a"
  by (cases a; cases b; cases c) auto

lemma py_gt_asym: "py_gt a b \<Longrightarrow> \<not> py_gt b a"
  by (cases a; cases b) auto

lemma max_loop_first_max:
  assumes "\<forall>y\<in>set ys. key y = Inr (k y)" and "\<forall>y\<in>set (best # ys). k y \<noteq> NaN"
  shows "\<exists>pre b post. max_loop key ys best (k best) = Inr b \<and> best # ys = pre @ b # post \<and>
           (\<forall>y\<in>set pre. py_gt (k b) (k y)) \<and> (\<forall>y\<in>set post. \<not> py_gt (k y) (k b))"
  using assms
proof (induction ys arbitrary: best)
  case Nil
  have "max_loop key [] best (k best) = Inr best" "[best] = [] @ best # []"
       "\<forall>y\<in>set []. py_gt (k best) (k y)" "\<forall>y\<in>set []. \<not> py_gt (k y) (k best)"
    by simp_all
  then show ?case by blast
next
  case (Cons y ys)
  have ky: "key y = Inr (k y)" and kys: "\<forall>z\<in>set ys. key z = Inr (k z)"
    using Cons.prems(1) by simp_all
  show ?case
  proof (cases "py_gt (k y) (k best)")
    case True
    have "\<forall>z\<in>set (y # ys). k z \<noteq> NaN" using Cons.prems(2) by simp
    from Cons.IH[OF kys this] obtain pre b post where
      h: "max_loop key ys y (k y) = Inr b" "y # ys = pre @ b # post"
         "\<forall>z\<in>set pre. py_gt (k b) (k z)" "\<forall>z\<in>set post. \<not> py_gt (k z) (k b)" by blast
    have gt: "py_gt (k b) (k best)"
    proof (cases pre)
      case Nil
      with h(2) have "b = y" by simp
      with True show ?thesis by simp
    next
      case (Cons p ps)
      with h(2) have "p = y" by simp
      with Cons h(3) have "py_gt (k b) (k y)" by simp
      with True show ?thesis by (cases "k b"; cases "k y"; cases "k best") auto
    qed
    have m1: "max_loop key (y # ys) best (k best) = Inr b"
      using True h(1) ky by simp
    have m2: "best # y # ys = (best # pre) @ b # post"
      using h(2) by simp
    have m3: "\<forall>z\<in>set (best # pre). py_gt (k b) (k z)"
      using gt h(3) by simp
    from m1 m2 m3 h(4) show ?thesis by blast
  next
    case False
    have "\<forall>z\<in>set (best # ys). k z \<noteq> NaN" using Cons.prems(2) by simp
    from Cons.IH[OF kys this] obtain pre b post where
      h: "max_loop key ys best (k best) = Inr b" "best # ys = pre @ b # post"
         "\<forall>z\<in>set pre. py_gt (k b) (k z)" "\<forall>z\<in>set post. \<not> py_gt (k z) (k b)" by blast
    have m1: "max_loop key (y # ys) best (k best) = Inr b"
      using False h(1) ky by simp
    show ?thesis
    proof (cases pre)
      case Nil
      with h(2) have e: "b = best" "post = ys" by simp_all
      have m2: "best # y # ys = [] @ b # (y # ys)" using e by simp
      have m3: "\<forall>z\<in>set []. py_gt (k b) (k z)" by simp
      have m4: "\<forall>z\<in>set (y # ys). \<not> py_gt (k z) (k b)"
        using False h(4) e by simp
      from m1 m2 m3 m4 show ?thesis by blast
    next
      case (Cons p ps)
      with h(2) have e: "p = best" "ys = ps @ b # post" by simp_all
      with Cons h(3) have "py_gt (k b) (k best)" by simp
      moreover from Cons.prems(2) have "k y \<noteq> NaN" by simp
      ultimately have gt: "py_gt (k b) (k y)" using False py_gt_trans2 by blast
      have m2: "best # y # ys = (best # y # ps) @ b # post"
        using e(2) by simp
      have m3: "\<forall>z\<in>set (best # y # ps). py_gt (k b) (k z)"
        using h(3) Cons e(1) gt by simp
      from m1 m2 m3 h(4) show ?thesis by blast
    qed
  qed
qed

lemma py_max_key_first_max:
  assumes "xs \<noteq> []" and "\<forall>y\<in>set xs. key y = Inr (k y)" and "\<forall>y\<in>set xs. k y \<noteq> NaN"
  shows "\<exists>pre b post. py_max_key key xs = Inr b \<and> xs = pre @ b # post \<and>
           (\<forall>y\<in>set pre. py_gt (k b) (k y)) \<and> (\<forall>y\<in>set post. \<not> py_gt (k y) (k b))"
proof -
  from assms(1) obtain x ys where xs: "xs = x # ys" by (cases xs) auto
  with assms have "\<forall>y\<in>set ys. key y = Inr (k y)" "\<forall>y\<in>set (x # ys). k y \<noteq> NaN" by auto
  from max_loop_first_max[OF this] xs assms(2) show ?thesis
    by (simp add: py_max_key_def)
qed

lemma max_loop_skip_NaN:
  assumes "\<forall>y\<in>set ys. key y = Inr (k y)"
  shows "max_loop key ys best kb = max_loop key (filter (\<lambda>y. k y \<noteq> NaN) ys) best kb"
  using assms
proof (induction ys arbitrary: best kb)
  case Nil
  then show ?case by simp
next
  case (Cons y ys)
  then show ?case by (cases "k y") auto
qed

section \<open>Facts about the recognizer's loops\<close>

lemma dict_set_new: "k \<notin> fst ` set d \<Longrightarrow> dict_set d k v = d @ [(k, v)]"
  by (induction d) auto

lemma score_words_eq:
  "distinct (map fst models) \<Longrightarrow> fst ` set acc \<inter> fst ` set models = {} \<Longrightarrow>
   score_words T models sq lens acc = acc @ map (\<lambda>(w, m). (w, recorded T m sq lens)) models"
proof (induction models arbitrary: acc)
  case Nil
  then show ?case by simp
next
  case (Cons wm models)
  obtain w m where wm: "wm = (w, m)" by (cases wm)
  let ?acc = "acc @ [(w, recorded T m sq lens)]"
  from Cons.prems wm have new: "w \<notin> fst ` set acc" by auto
  have step: "score_words T (wm # models) sq lens acc = score_words T models sq lens ?acc"
    using wm dict_set_new[OF new] by (simp add: recorded_def split: sum.split)
  have "distinct (map fst models)" using Cons.prems(1) by simp
  moreover have "fst ` set ?acc \<inter> fst ` set models = {}"
    using Cons.prems wm by auto
  ultimately have "score_words T models sq lens ?acc = ?acc @ map (\<lambda>(w, m). (w, recorded T m sq lens)) models"
    by (rule Cons.IH)
  with step wm show ?case by simp
qed

lemma score_words_profile:
  "distinct (map fst models) \<Longrightarrow>
   score_words T models (fst item) (snd item) [] = profile_of T models item"
  using score_words_eq[of models "[]" T "fst item" "snd item"] by (simp add: profile_of_def)

lemma profile_keys: "map fst (profile_of T models item) = map fst models"
  by (simp add: profile_of_def case_prod_unfold comp_def)

lemma profile_no_NaN: "\<forall>p\<in>set (profile_of T models item). snd p \<noteq> NaN"
  by (auto simp: profile_of_def recorded_def split: sum.splits)

lemma dict_get_profile:
  assumes "distinct (map fst d)" and "p \<in> set d"
  shows "dict_get d (fst p) = Inr (snd p)"
proof -
  have "map_of d (fst p) = Some (snd p)" using assms by simp
  then show ?thesis by (simp add: dict_get_def)
qed

text \<open>The guess computed from a non-empty profile with distinct keys.\<close>

lemma py_max_key_profile:
  assumes d: "distinct (map fst d)" and ne: "d \<noteq> []" and nn: "\<forall>p\<in>set d. snd p \<noteq> NaN"
  shows "\<exists>g. py_max_key (\<lambda>x. dict_get d x) (map fst d) = Inr g \<and> first_argmax d g"
proof -
  define k where "k = (\<lambda>w. case map_of d w of Some v \<Rightarrow> v | None \<Rightarrow> NaN)"
  have kp: "k (fst p) = snd p" if "p \<in> set d" for p
  proof -
    have "map_of d (fst p) = Some (snd p)" using that d by simp
    then show ?thesis by (simp add: k_def)
  qed
  have a1: "map fst d \<noteq> []" using ne by simp
  have a2: "\<forall>y\<in>set (map fst d). dict_get d y = Inr (k y)"
    using dict_get_profile[OF d] kp by auto
  have a3: "\<forall>y\<in>set (map fst d). k y \<noteq> NaN"
    using kp nn by auto
  from py_max_key_first_max[OF a1 a2 a3] obtain pre g post where
    h: "py_max_key (\<lambda>x. dict_get d x) (map fst d) = Inr g" "map fst d = pre @ g # post"
       "\<forall>y\<in>set pre. py_gt (k g) (k y)" "\<forall>y\<in>set post. \<not> py_gt (k y) (k g)" by blast
  let ?j = "length pre"
  have len: "length d = length pre + Suc (length post)"
    using h(2) by (metis length_map length_append length_Cons)
  have jlt: "?j < length d" using len by simp
  have nthk: "fst (d ! l) = (pre @ g # post) ! l" if "l < length d" for l
    using that h(2) by (metis nth_map)
  have fj: "fst (d ! ?j) = g" using nthk[OF jlt] by simp
  have sj: "snd (d ! ?j) = k g" using kp[of "d ! ?j"] jlt fj by simp
  have sl: "snd (d ! l) = k (fst (d ! l))" if "l < length d" for l
    using kp[of "d ! l"] that by simp
  have before: "py_gt (snd (d ! ?j)) (snd (d ! l))" if "l < ?j" for l
  proof -
    have "l < length d" using that jlt by simp
    moreover have "fst (d ! l) = pre ! l" using nthk[OF \<open>l < length d\<close>] that by (simp add: nth_append)
    moreover have "pre ! l \<in> set pre" using that by simp
    ultimately show ?thesis using h(3) sj sl by metis
  qed
  have all: "\<not> py_gt (snd (d ! l)) (snd (d ! ?j))" if "l < length d" for l
  proof -
    consider "l < ?j" | "l = ?j" | "l > ?j" by linarith
    then show ?thesis
    proof cases
      case 1
      from before[OF 1] show ?thesis by (rule py_gt_asym)
    next
      case 2
      then show ?thesis by (cases "snd (d ! ?j)") auto
    next
      case 3
      then obtain i where i: "l = ?j + Suc i" by (metis less_iff_Suc_add add_Suc_right)
      with that len have "i < length post" by simp
      then have "post ! i \<in> set post" by simp
      moreover have "fst (d ! l) = post ! i" using nthk[OF that] i by (simp add: nth_append)
      ultimately show ?thesis using h(4) sj sl[OF that] by metis
    qed
  qed
  have "first_argmax d g"
    unfolding first_argmax_def using jlt fj before all by auto
  with h(1) show ?thesis by blast
qed

lemma py_max_key_Nil: "py_max_key key [] = Inl ValueError"
  by (simp add: py_max_key_def)

lemma recognize_loop_ok:
  assumes d: "distinct (map fst models)" and ne: "models \<noteq> []"
  shows "\<exists>gs. recognize_loop T models ts ids (P, G) =
                 Inr (P @ map (\<lambda>i. profile_of T models (ts ! i)) ids, G @ gs) \<and>
              length gs = length ids \<and>
              (\<forall>n<length ids. first_argmax (profile_of T models (ts ! (ids ! n))) (gs ! n))"
proof (induction ids arbitrary: P G)
  case Nil
  then show ?case by simp
next
  case (Cons i ids)
  let ?d = "profile_of T models (ts ! i)"
  have sw: "score_words T models (fst (ts ! i)) (snd (ts ! i)) [] = ?d"
    by (rule score_words_profile[OF d])
  have "distinct (map fst ?d)" "?d \<noteq> []" using d ne by (simp_all add: profile_keys) (simp add: profile_of_def)
  from py_max_key_profile[OF this profile_no_NaN] obtain g where
    g: "py_max_key (\<lambda>x. dict_get ?d x) (map fst ?d) = Inr g" "first_argmax ?d g" by blast
  from Cons.IH[of "P @ [?d]" "G @ [g]"] obtain gs where
    gs: "recognize_loop T models ts ids (P @ [?d], G @ [g]) =
           Inr ((P @ [?d]) @ map (\<lambda>i. profile_of T models (ts ! i)) ids, (G @ [g]) @ gs)"
        "length gs = length ids"
        "\<forall>n<length ids. first_argmax (profile_of T models (ts ! (ids ! n))) (gs ! n)" by blast
  have step: "recognize_loop T models ts (i # ids) (P, G) =
              recognize_loop T models ts ids (P @ [?d], G @ [g])"
    using sw g(1) by (simp add: case_prod_unfold)
  have "recognize_loop T models ts (i # ids) (P, G) =
          Inr (P @ map (\<lambda>i. profile_of T models (ts ! i)) (i # ids), G @ (g # gs))"
    using step gs(1) by simp
  moreover have "length (g # gs) = length (i # ids)" using gs(2) by simp
  moreover have "\<forall>n<length (i # ids). first_argmax (profile_of T models (ts ! ((i # ids) ! n))) ((g # gs) ! n)"
    using g(2) gs(3) by (auto simp: nth_Cons split: nat.split)
  ultimately show ?case by blast
qed

lemma recognize_loop_empty_models:
  "recognize_loop T [] ts (i # ids) (P, G) = Inl ValueError"
  by (simp add: py_max_key_Nil case_prod_unfold)

lemma upt_0_2: "[0 ..< 2] = [0, 1]"
  by (simp add: upt_rec)

lemma recognize_stub_value:
  "recognize stub_trainer models0 test_set0 =
     Inr ([[(''A'', Fin 4), (''B'', NInf), (''C'', Fin 7)],
          [(''A'', NInf), (''B'', Fin 6), (''C'', NInf)]], [''C'', ''B''])"
  by (simp add: recognize_def models0_def test_set0_def stub_trainer_def upt_0_2
      py_max_key_def dict_get_def)

lemma recognize_returns:
  assumes d: "distinct (map fst models)" and ne: "models \<noteq> [] \<or> ts = []"
  shows "\<exists>guesses. recognize T models ts = Inr (map (profile_of T models) ts, guesses) \<and>
           length guesses = length ts \<and>
           (\<forall>i<length ts. first_argmax (profile_of T models (ts ! i)) (guesses ! i))"
proof (cases "models = []")
  case True
  with ne have "ts = []" by simp
  then show ?thesis by (simp add: recognize_def)
next
  case False
  from recognize_loop_ok[OF d False, of T ts "[0 ..< length ts]" "[]" "[]"]
  obtain gs where
    h: "recognize_loop T models ts [0 ..< length ts] ([], []) =
          Inr ([] @ map (\<lambda>i. profile_of T models (ts ! i)) [0 ..< length ts], [] @ gs)"
       "length gs = length [0 ..< length ts]"
       "\<forall>n<length [0 ..< length ts]. first_argmax (profile_of T models (ts ! ([0 ..< length ts] ! n))) (gs ! n)"
    by blast
  have "map (\<lambda>i. profile_of T models (ts ! i)) [0 ..< length ts] = map (profile_of T models) ts"
    by (rule nth_equalityI) simp_all
  with h show ?thesis by (simp add: recognize_def)
qed

section \<open>The recognizer\<close>

text \<open>
  Claim C5. For a model table with distinct words (a dictionary), \<^verbatim>\<open>recognize\<close> returns one
  profile per test item, the words of each profile are the words of the table, and the
  value recorded for a word is the score of its model on that item, or negative infinity
  when the scoring raises. With an empty table there is a result only for an empty test set.
\<close>

theorem recognize_profile_complete:
  assumes "distinct (map fst models)" and "models \<noteq> [] \<or> ts = []"
  shows "\<exists>probabilities guesses.
           recognize T models ts = Inr (probabilities, guesses) \<and>
           length probabilities = length ts \<and>
           (\<forall>i<length ts.
              set (map fst (probabilities ! i)) = set (map fst models) \<and>
              (\<forall>(word, model)\<in>set models.
                 dict_get (probabilities ! i) word =
                   (case score T model (fst (ts ! i)) (snd (ts ! i)) of
                      Inr v \<Rightarrow> Inr (Fin v)
                    | Inl e \<Rightarrow> Inr NInf)))"
proof -
  from recognize_returns[OF assms] obtain guesses where
    r: "recognize T models ts = Inr (map (profile_of T models) ts, guesses)" by blast
  have "set (map fst (profile_of T models (ts ! i))) = set (map fst models)" for i
    by (simp only: profile_keys)
  moreover have "dict_get (profile_of T models (ts ! i)) word =
          (case score T model (fst (ts ! i)) (snd (ts ! i)) of Inr v \<Rightarrow> Inr (Fin v) | Inl e \<Rightarrow> Inr NInf)"
    if "(word, model) \<in> set models" for i word model
  proof -
    have "(word, recorded T model (fst (ts ! i)) (snd (ts ! i))) \<in> set (profile_of T models (ts ! i))"
      using that by (force simp: profile_of_def)
    moreover have "distinct (map fst (profile_of T models (ts ! i)))"
      using assms(1) by (simp only: profile_keys)
    ultimately have "dict_get (profile_of T models (ts ! i)) word =
                       Inr (recorded T model (fst (ts ! i)) (snd (ts ! i)))"
      using dict_get_profile by fastforce
    then show ?thesis by (simp add: recorded_def split: sum.split)
  qed
  ultimately show ?thesis using r by auto
qed

theorem recognize_profile_complete_witness:
  "distinct (map fst models0) \<and> models0 \<noteq> [] \<and>
   recognize stub_trainer models0 test_set0 =
     Inr ([[(''A'', Fin 4), (''B'', NInf), (''C'', Fin 7)],
          [(''A'', NInf), (''B'', Fin 6), (''C'', NInf)]], [''C'', ''B'']) \<and>
   score stub_trainer (3, 2) (fst (test_set0 ! 0)) (snd (test_set0 ! 0)) = Inl TrainerError \<and>
   (\<exists>probabilities guesses.
           recognize stub_trainer models0 test_set0 = Inr (probabilities, guesses) \<and>
           length probabilities = length test_set0 \<and>
           (\<forall>i<length test_set0.
              set (map fst (probabilities ! i)) = set (map fst models0) \<and>
              (\<forall>(word, model)\<in>set models0.
                 dict_get (probabilities ! i) word =
                   (case score stub_trainer model (fst (test_set0 ! i)) (snd (test_set0 ! i)) of
                      Inr v \<Rightarrow> Inr (Fin v)
                    | Inl e \<Rightarrow> Inr NInf))))"
proof -
  have h1: "distinct (map fst models0)" by (simp add: models0_def)
  have h2: "models0 \<noteq> [] \<or> test_set0 = []" by (simp add: models0_def)
  have h3: "models0 \<noteq> []" by (simp add: models0_def)
  have h4: "score stub_trainer (3, 2) (fst (test_set0 ! 0)) (snd (test_set0 ! 0)) = Inl TrainerError"
    by (simp add: stub_trainer_def test_set0_def)
  from h1 h3 h4 recognize_stub_value recognize_profile_complete[OF h1 h2, of stub_trainer]
  show ?thesis by blast
qed

text \<open>
  Claim C6. The two returned lists have one entry per test item, in the order of the items:
  entry \<open>i\<close> of the profiles is the dictionary filled from item \<open>i\<close>, its words are in the
  order of the model table, and guess \<open>i\<close> is the first word of that profile whose value no
  other value exceeds. A guess recorded with negative infinity means every word of the
  profile is recorded with negative infinity.
\<close>

theorem recognize_guess_first_max:
  assumes "distinct (map fst models)" and "models \<noteq> [] \<or> ts = []"
  shows "\<exists>probabilities guesses.
           recognize T models ts = Inr (probabilities, guesses) \<and>
           length probabilities = length ts \<and> length guesses = length ts \<and>
           (\<forall>i<length ts.
              probabilities ! i = score_words T models (fst (ts ! i)) (snd (ts ! i)) [] \<and>
              map fst (probabilities ! i) = map fst models \<and>
              first_argmax (probabilities ! i) (guesses ! i) \<and>
              (dict_get (probabilities ! i) (guesses ! i) = Inr NInf \<longrightarrow>
                 (\<forall>p\<in>set (probabilities ! i). snd p = NInf)))"
proof -
  from recognize_returns[OF assms] obtain guesses where
    r: "recognize T models ts = Inr (map (profile_of T models) ts, guesses)"
       "length guesses = length ts"
       "\<forall>i<length ts. first_argmax (profile_of T models (ts ! i)) (guesses ! i)" by blast
  have ninf: "\<forall>p\<in>set d. snd p = NInf"
    if fa: "first_argmax d g" and dg: "dict_get d g = Inr NInf" and dd: "distinct (map fst d)"
      and nn: "\<forall>p\<in>set d. snd p \<noteq> NaN" for d :: "(string \<times> pyfloat) list" and g
  proof -
    from fa obtain j where j: "j < length d" "fst (d ! j) = g"
      "\<forall>l<length d. \<not> py_gt (snd (d ! l)) (snd (d ! j))"
      unfolding first_argmax_def by auto
    have "dict_get d (fst (d ! j)) = Inr (snd (d ! j))"
      using dict_get_profile[OF dd, of "d ! j"] j(1) by simp
    with dg j(2) have vj: "snd (d ! j) = NInf" by simp
    show ?thesis
    proof
      fix p assume "p \<in> set d"
      then obtain l where l: "l < length d" "d ! l = p" by (auto simp: in_set_conv_nth)
      with j(3) vj have "\<not> py_gt (snd p) NInf" by auto
      moreover have "snd p \<noteq> NaN" using nn \<open>p \<in> set d\<close> by simp
      ultimately show "snd p = NInf" by (cases "snd p") auto
    qed
  qed
  let ?P = "map (profile_of T models) ts"
  have "\<forall>i<length ts.
          ?P ! i = score_words T models (fst (ts ! i)) (snd (ts ! i)) [] \<and>
          map fst (?P ! i) = map fst models \<and>
          first_argmax (?P ! i) (guesses ! i) \<and>
          (dict_get (?P ! i) (guesses ! i) = Inr NInf \<longrightarrow> (\<forall>p\<in>set (?P ! i). snd p = NInf))"
  proof (intro allI impI)
    fix i assume i: "i < length ts"
    have e: "?P ! i = profile_of T models (ts ! i)" using i by simp
    have c1: "profile_of T models (ts ! i) = score_words T models (fst (ts ! i)) (snd (ts ! i)) []"
      by (rule score_words_profile[OF assms(1), symmetric])
    have c2: "map fst (profile_of T models (ts ! i)) = map fst models"
      by (rule profile_keys)
    have c3: "first_argmax (profile_of T models (ts ! i)) (guesses ! i)"
      using r(3) i by simp
    have dd: "distinct (map fst (profile_of T models (ts ! i)))"
      using assms(1) by (simp only: profile_keys)
    have c4: "dict_get (profile_of T models (ts ! i)) (guesses ! i) = Inr NInf \<longrightarrow>
              (\<forall>p\<in>set (profile_of T models (ts ! i)). snd p = NInf)"
      using ninf[OF c3 _ dd profile_no_NaN] by blast
    from c1 c2 c3 c4 show "?P ! i = score_words T models (fst (ts ! i)) (snd (ts ! i)) [] \<and>
          map fst (?P ! i) = map fst models \<and>
          first_argmax (?P ! i) (guesses ! i) \<and>
          (dict_get (?P ! i) (guesses ! i) = Inr NInf \<longrightarrow> (\<forall>p\<in>set (?P ! i). snd p = NInf))"
      unfolding e by blast
  qed
  moreover have "length ?P = length ts" by simp
  ultimately show ?thesis using r(1,2) by blast
qed

theorem recognize_guess_first_max_witness:
  "distinct (map fst models0) \<and> models0 \<noteq> [] \<and>
   recognize stub_trainer models0 test_set0 =
     Inr ([[(''A'', Fin 4), (''B'', NInf), (''C'', Fin 7)],
          [(''A'', NInf), (''B'', Fin 6), (''C'', NInf)]], [''C'', ''B'']) \<and>
   (\<exists>probabilities guesses.
           recognize stub_trainer models0 test_set0 = Inr (probabilities, guesses) \<and>
           length probabilities = length test_set0 \<and> length guesses = length test_set0 \<and>
           (\<forall>i<length test_set0.
              probabilities ! i =
                score_words stub_trainer models0 (fst (test_set0 ! i)) (snd (test_set0 ! i)) [] \<and>
              map fst (probabilities ! i) = map fst models0 \<and>
              first_argmax (probabilities ! i) (guesses ! i) \<and>
              (dict_get (probabilities ! i) (guesses ! i) = Inr NInf \<longrightarrow>
                 (\<forall>p\<in>set (probabilities ! i). snd p = NInf))))"
proof -
  have h1: "distinct (map fst models0)" by (simp add: models0_def)
  have h2: "models0 \<noteq> [] \<or> test_set0 = []" by (simp add: models0_def)
  have h3: "models0 \<noteq> []" by (simp add: models0_def)
  from h1 h3 recognize_stub_value recognize_guess_first_max[OF h1 h2, of stub_trainer]
  show ?thesis by blast
qed

text \<open>
  Claim C10. With an empty model table and at least one test item, \<^verbatim>\<open>recognize\<close> raises
  the \<^verbatim>\<open>ValueError\<close> of \<^verbatim>\<open>max\<close> on an empty profile; with at least one word in the
  table it returns.
\<close>

theorem recognize_empty_table_raises:
  "(ts \<noteq> [] \<longrightarrow> recognize T [] ts = Inl ValueError) \<and>
   (distinct (map fst models) \<and> models \<noteq> [] \<longrightarrow> (\<exists>r. recognize T models ts = Inr r))"
proof (intro conjI impI)
  assume "ts \<noteq> []"
  then have "[0 ..< length ts] = 0 # [1 ..< length ts]" by (simp add: upt_rec)
  then have "recognize T [] ts = recognize_loop T [] ts (0 # [1 ..< length ts]) ([], [])"
    by (simp only: recognize_def)
  then show "recognize T [] ts = Inl ValueError"
    by (simp only: recognize_loop_empty_models)
next
  assume "distinct (map fst models) \<and> models \<noteq> []"
  then show "\<exists>r. recognize T models ts = Inr r"
    using recognize_returns[of models ts T] by blast
qed

theorem recognize_empty_table_raises_witness:
  "test_set0 \<noteq> [] \<and> recognize stub_trainer [] test_set0 = Inl ValueError \<and>
   distinct (map fst models0) \<and> models0 \<noteq> [] \<and>
   (\<exists>r. recognize stub_trainer models0 test_set0 = Inr r)"
proof -
  have h1: "distinct (map fst models0)" "models0 \<noteq> []" by (simp_all add: models0_def)
  have h2: "test_set0 \<noteq> []" by (simp add: test_set0_def)
  from h1 h2 recognize_empty_table_raises[of test_set0 stub_trainer models0]
  show ?thesis by blast
qed

section \<open>The selectors\<close>

text \<open>
  Claim C7. \<^verbatim>\<open>base_model\<close> never raises: a failed fit gives \<^verbatim>\<open>None\<close>, a successful fit
  gives the model fitted with the requested state count and the selector's seed on the
  selector's \<^verbatim>\<open>X\<close> and \<^verbatim>\<open>lengths\<close>, which after \<^verbatim>\<open>__init__\<close> are the word's entry of
  the corpus-wide observation table.
\<close>

theorem base_model_absorbs_failure:
  "(\<exists>r. base_model T s n = Inr r) \<and>
   (\<forall>e. fit T n (random_state s) (X s) (lengths s) = Inl e \<longrightarrow> base_model T s n = Inr None) \<and>
   (\<forall>m. fit T n (random_state s) (X s) (lengths s) = Inr m \<longrightarrow> base_model T s n = Inr (Some m)) \<and>
   (\<forall>ws hws w nc mn mx seed vb.
      init ws hws w nc mn mx seed vb = Inr s \<longrightarrow> dict_get hws w = Inr (X s, lengths s))"
proof -
  have "dict_get hws w = Inr (X s, lengths s)"
    if "init ws hws w nc mn mx seed vb = Inr s" for ws hws w nc mn mx seed vb
  proof (cases "dict_get ws w")
    case (Inl e)
    with that show ?thesis by (simp add: init_def)
  next
    case (Inr seqs)
    show ?thesis
    proof (cases "dict_get hws w")
      case (Inl e)
      with that Inr show ?thesis by (simp add: init_def)
    next
      case (Inr ol)
      with that \<open>dict_get ws w = Inr seqs\<close> show ?thesis
        by (cases ol) (auto simp: init_def)
    qed
  qed
  moreover have "\<exists>r. base_model T s n = Inr r"
    by (simp add: base_model_def split: sum.split)
  moreover have "\<forall>e. fit T n (random_state s) (X s) (lengths s) = Inl e \<longrightarrow>
                     base_model T s n = Inr None"
    by (simp add: base_model_def)
  moreover have "\<forall>m. fit T n (random_state s) (X s) (lengths s) = Inr m \<longrightarrow>
                     base_model T s n = Inr (Some m)"
    by (simp add: base_model_def)
  ultimately show ?thesis by blast
qed

theorem base_model_absorbs_failure_witness:
  "init words0 hwords0 ''A'' 3 2 4 14 False = Inr selector0 \<and>
   dict_get hwords0 ''A'' = Inr (X selector0, lengths selector0) \<and>
   fit stub_trainer 3 (random_state selector0) (X selector0) (lengths selector0) = Inr (3, 1) \<and>
   base_model stub_trainer selector0 3 = Inr (Some (3, 1)) \<and>
   fit stub_trainer 9 (random_state selector0) (X selector0) (lengths selector0) = Inl TrainerError \<and>
   base_model stub_trainer selector0 9 = Inr None"
proof -
  have i: "init words0 hwords0 ''A'' 3 2 4 14 False = Inr selector0"
    by (simp add: init_def dict_get_def words0_def hwords0_def selector0_def)
  have f3: "fit stub_trainer 3 (random_state selector0) (X selector0) (lengths selector0) = Inr (3, 1)"
    by (simp add: stub_trainer_def selector0_def)
  have f9: "fit stub_trainer 9 (random_state selector0) (X selector0) (lengths selector0) = Inl TrainerError"
    by (simp add: stub_trainer_def selector0_def)
  from i f3 f9 base_model_absorbs_failure[of stub_trainer selector0 3]
    base_model_absorbs_failure[of stub_trainer selector0 9]
  show ?thesis by blast
qed

text \<open>
  Claim C1, at the input where it fails: with a trainer whose fit fails for every state
  count, \<^verbatim>\<open>SelectorDIC.select\<close> raises \<^verbatim>\<open>NotImplementedError\<close> instead of returning
  \<^verbatim>\<open>None\<close>.
\<close>

theorem SelectorDIC_raises_when_all_fits_fail:
  "(\<forall>n seed obs lens. fit failing_trainer n seed obs lens = Inl TrainerError) \<and>
   fst (select SelectorDIC failing_trainer selector0) = Inl NotImplementedError"
  by (simp add: failing_trainer_def SelectorDIC_select_def)

text \<open>
  Claim C4, at the input where it fails: for a word whose candidates can be fitted and
  scored, \<^verbatim>\<open>SelectorDIC.select\<close> raises \<^verbatim>\<open>NotImplementedError\<close>; no criterion is computed
  and no model is returned.
\<close>

theorem SelectorDIC_raises_on_fittable_word:
  "base_model stub_trainer selector0 2 = Inr (Some (2, 1)) \<and>
   score stub_trainer (2, 1) (X selector0) (lengths selector0) = Inr 3 \<and>
   fst (select SelectorDIC stub_trainer selector0) = Inl NotImplementedError"
  by (simp add: base_model_def stub_trainer_def selector0_def SelectorDIC_select_def)

section \<open>SelectorBIC: the maximum of the criterion\<close>

lemma BIC_try_Some:
  assumes "X s \<noteq> []" and "bic_spec T s n = Some c"
  shows "BIC_try T s n = Inr (entry_of c)"
proof -
  from assms(1) obtain row rest where x: "X s = row # rest" by (cases "X s") auto
  from assms(2) obtain m logL where
    f: "fit T n (random_state s) (X s) (lengths s) = Inr m" and
    sc: "score T m (X s) (lengths s) = Inr logL"
    by (auto simp: bic_spec_def split: sum.splits)
  from assms(2) f sc x show ?thesis
    by (auto simp: bic_spec_def BIC_try_def base_model_def model_score_def entry_of_def
        feature_dim_def)
qed

lemma BIC_try_None:
  assumes "bic_spec T s n = None"
  shows "\<exists>e. BIC_try T s n = Inl e"
  using assms
  by (auto simp: bic_spec_def BIC_try_def base_model_def model_score_def
      split: sum.splits list.splits)

lemma BIC_try_empty: "X s = [] \<Longrightarrow> \<exists>e. BIC_try T s n = Inl e"
  by (auto simp: BIC_try_def base_model_def model_score_def split: sum.splits option.splits)

lemma BIC_loop_eq:
  assumes "X s \<noteq> []"
  shows "BIC_loop T s ns acc = acc @ map entry_of (List.map_filter (bic_spec T s) ns)"
proof (induction ns arbitrary: acc)
  case Nil
  show ?case by simp
next
  case (Cons n ns)
  show ?case
  proof (cases "bic_spec T s n")
    case None
    from BIC_try_None[OF None] obtain e where "BIC_try T s n = Inl e" by blast
    with None Cons.IH[of acc] show ?thesis by simp
  next
    case (Some c)
    from BIC_try_Some[OF assms Some] Some Cons.IH[of "acc @ [entry_of c]"] show ?thesis
      by simp
  qed
qed

lemma py_max_key_skip_NaN:
  assumes "xs \<noteq> []" and "k (hd xs) \<noteq> NaN"
  shows "py_max_key (\<lambda>x. Inr (k x)) xs = py_max_key (\<lambda>x. Inr (k x)) (filter (\<lambda>y. k y \<noteq> NaN) xs)"
proof -
  from assms obtain x ys where xs: "xs = x # ys" and kx: "k x \<noteq> NaN" by (cases xs) auto
  have "max_loop (\<lambda>x. Inr (k x)) ys x (k x) =
        max_loop (\<lambda>x. Inr (k x)) (filter (\<lambda>y. k y \<noteq> NaN) ys) x (k x)"
    by (rule max_loop_skip_NaN) simp
  with xs kx show ?thesis by (simp add: py_max_key_def)
qed

lemma map_filter_empty_iff: "List.map_filter f ns = [] \<longleftrightarrow> (\<forall>n\<in>set ns. f n = None)"
  by (auto simp: map_filter_def filter_empty_conv)

lemma set_map_filter: "set (List.map_filter f ns) = {c. \<exists>n\<in>set ns. f n = Some c}"
  by (induction ns) (auto split: option.splits)

lemma pick_best_candidates:
  assumes flt: "filter (\<lambda>x. fst x \<noteq> NaN) nss = map entry_of (List.map_filter f ns)"
    and hd: "nss \<noteq> [] \<longrightarrow> fst (hd nss) \<noteq> NaN"
  shows "((\<forall>n\<in>set ns. f n = None) \<longrightarrow> pick_best nss = Inr None) \<and>
         ((\<exists>n\<in>set ns. f n \<noteq> None) \<longrightarrow>
            (\<exists>n\<in>set ns. \<exists>q m. f n = Some (q, m) \<and> pick_best nss = Inr (Some m) \<and>
               (\<forall>n'\<in>set ns. \<forall>q' m'. f n' = Some (q', m') \<longrightarrow> q' \<le> q)))"
proof (intro conjI impI)
  assume "\<forall>n\<in>set ns. f n = None"
  then have "List.map_filter f ns = []" by (simp add: map_filter_empty_iff)
  with flt have e: "filter (\<lambda>x. fst x \<noteq> NaN) nss = []" by simp
  have "nss = []"
  proof (rule ccontr)
    assume ne: "nss \<noteq> []"
    with hd have "fst (hd nss) \<noteq> NaN" by simp
    moreover have "hd nss \<in> set nss" using ne by simp
    ultimately have "hd nss \<in> set (filter (\<lambda>x. fst x \<noteq> NaN) nss)" by simp
    with e show False by simp
  qed
  then show "pick_best nss = Inr None" by (simp add: pick_best_def)
next
  assume "\<exists>n\<in>set ns. f n \<noteq> None"
  then have mne: "List.map_filter f ns \<noteq> []" by (simp add: map_filter_empty_iff)
  let ?cs = "map entry_of (List.map_filter f ns)"
  have cne: "?cs \<noteq> []" using mne by simp
  have nne: "nss \<noteq> []" using flt cne by auto
  with hd have h: "fst (hd nss) \<noteq> NaN" by simp
  have "py_max_key (\<lambda>x. Inr (fst x)) nss = py_max_key (\<lambda>x. Inr (fst x)) ?cs"
    using py_max_key_skip_NaN[of nss fst, OF nne h] flt by simp
  moreover have "\<forall>y\<in>set ?cs. fst y \<noteq> NaN" by (auto simp: entry_of_def)
  then have "\<exists>pre b post. py_max_key (\<lambda>x. Inr (fst x)) ?cs = Inr b \<and> ?cs = pre @ b # post \<and>
           (\<forall>y\<in>set pre. py_gt (fst b) (fst y)) \<and> (\<forall>y\<in>set post. \<not> py_gt (fst y) (fst b))"
    by (intro py_max_key_first_max[OF cne]) simp_all
  ultimately obtain pre b post where
    b: "py_max_key (\<lambda>x. Inr (fst x)) nss = Inr b" "?cs = pre @ b # post"
       "\<forall>y\<in>set pre. py_gt (fst b) (fst y)" "\<forall>y\<in>set post. \<not> py_gt (fst y) (fst b)" by auto
  have ngt: "\<not> py_gt (fst y) (fst b)" if "y \<in> set ?cs" for y
  proof -
    from that b(2) have "y \<in> set pre \<or> y = b \<or> y \<in> set post" by auto
    then consider "y \<in> set pre" | "y = b" | "y \<in> set post" by blast
    then show ?thesis
    proof cases
      case 1
      with b(3) have "py_gt (fst b) (fst y)" by simp
      then show ?thesis by (rule py_gt_asym)
    next
      case 2
      show ?thesis unfolding 2 using py_gt_asym by blast
    next
      case 3
      with b(4) show ?thesis by simp
    qed
  qed
  have "b \<in> set ?cs" using b(2) by simp
  then obtain c where c: "c \<in> set (List.map_filter f ns)" "b = entry_of c" by auto
  then obtain n where n: "n \<in> set ns" "f n = Some c" by (auto simp: set_map_filter)
  have pb: "pick_best nss = Inr (Some (snd c))"
    using b(1) nne c(2) by (simp add: pick_best_def entry_of_def)
  have mx: "q' \<le> fst c" if "n' \<in> set ns" "f n' = Some (q', m')" for n' q' m'
  proof -
    from that have "(q', m') \<in> set (List.map_filter f ns)" by (auto simp: set_map_filter)
    then have "entry_of (q', m') \<in> set ?cs" by simp
    from ngt[OF this] c(2) show ?thesis by (simp add: entry_of_def)
  qed
  from n pb mx show "\<exists>n\<in>set ns. \<exists>q m. f n = Some (q, m) \<and> pick_best nss = Inr (Some m) \<and>
               (\<forall>n'\<in>set ns. \<forall>q' m'. f n' = Some (q', m') \<longrightarrow> q' \<le> q)"
    by (intro bexI[of _ n] exI[of _ "fst c"] exI[of _ "snd c"]) auto
qed

lemma SelectorBIC_select_pick: "SelectorBIC_select T s =
   pick_best (BIC_loop T s [min_n_components s .. max_n_components s] [])"
  by (simp add: SelectorBIC_select_def pick_best_def Let_def)

lemma ln5_gt_1: "1 < ln (5::real)"
proof -
  have "exp (1::real) < 5" using exp_le by linarith
  then have "ln (exp (1::real)) < ln 5" by (subst ln_less_cancel_iff) simp_all
  then show ?thesis by simp
qed

lemma upto_2_4: "[2 .. 4::int] = [2, 3, 4]"
  by simp

lemma bic0:
  "bic_spec stub_trainer selector0 2 = Some (- 6 + 7 * ln 5, (2, 1))"
  "bic_spec stub_trainer selector0 3 = Some (- 8 + 14 * ln 5, (3, 1))"
  "bic_spec stub_trainer selector0 4 = Some (- 6 + 23 * ln 5, (4, 1))"
  by (simp_all add: bic_spec_def stub_trainer_def selector0_def feature_dim_def)

lemma BIC_stub_value: "SelectorBIC_select stub_trainer selector0 = Inr (Some (4, 1))"
proof -
  have x: "X selector0 \<noteq> []" by (simp add: selector0_def)
  have r: "[min_n_components selector0 .. max_n_components selector0] = [2, 3, 4]"
    by (simp add: selector0_def upto_2_4)
  have l: "BIC_loop stub_trainer selector0 [2, 3, 4] [] =
       [(Fin (- 6 + 7 * ln 5), Some (2, 1)), (Fin (- 8 + 14 * ln 5), Some (3, 1)),
        (Fin (- 6 + 23 * ln 5), Some (4, 1))]"
    unfolding BIC_loop_eq[OF x] by (simp add: bic0 entry_of_def)
  show ?thesis
    unfolding SelectorBIC_select_def r l using ln5_gt_1
    by (simp add: py_max_key_def)
qed

text \<open>
  Claim C2. For a word with at least one observation row (so that \<open>d\<close> is defined),
  \<^verbatim>\<open>SelectorBIC.select\<close> returns \<^verbatim>\<open>None\<close> when no candidate of the inclusive range
  \<open>[min_n_components, max_n_components]\<close> can be fitted and scored, and otherwise the model
  of a candidate of the range whose \<open>BIC = -2 logL + p ln N\<close> is greatest among the
  candidates that can.
\<close>

theorem SelectorBIC_select_max:
  assumes "X s \<noteq> []"
  shows "((\<forall>n\<in>{min_n_components s .. max_n_components s}. bic_spec T s n = None) \<longrightarrow>
            SelectorBIC_select T s = Inr None) \<and>
         ((\<exists>n\<in>{min_n_components s .. max_n_components s}. bic_spec T s n \<noteq> None) \<longrightarrow>
            (\<exists>n\<in>{min_n_components s .. max_n_components s}. \<exists>b m.
               bic_spec T s n = Some (b, m) \<and> SelectorBIC_select T s = Inr (Some m) \<and>
               (\<forall>n'\<in>{min_n_components s .. max_n_components s}. \<forall>b' m'.
                  bic_spec T s n' = Some (b', m') \<longrightarrow> b' \<le> b)))"
proof -
  let ?ns = "[min_n_components s .. max_n_components s]"
  let ?nss = "BIC_loop T s ?ns []"
  have eq: "?nss = map entry_of (List.map_filter (bic_spec T s) ?ns)"
    using BIC_loop_eq[OF assms, of T ?ns "[]"] by simp
  have "filter (\<lambda>x. fst x \<noteq> NaN) ?nss = map entry_of (List.map_filter (bic_spec T s) ?ns)"
    unfolding eq by (simp add: filter_map comp_def entry_of_def)
  moreover have "?nss \<noteq> [] \<longrightarrow> fst (hd ?nss) \<noteq> NaN"
    unfolding eq by (simp add: hd_map entry_of_def)
  ultimately show ?thesis
    using pick_best_candidates[of ?nss "bic_spec T s" ?ns]
    by (simp add: SelectorBIC_select_pick)
qed

theorem SelectorBIC_select_max_witness:
  "X selector0 \<noteq> [] \<and>
   bic_spec stub_trainer selector0 2 = Some (- 6 + 7 * ln 5, (2, 1)) \<and>
   bic_spec stub_trainer selector0 3 = Some (- 8 + 14 * ln 5, (3, 1)) \<and>
   bic_spec stub_trainer selector0 4 = Some (- 6 + 23 * ln 5, (4, 1)) \<and>
   SelectorBIC_select stub_trainer selector0 = Inr (Some (4, 1)) \<and>
   (\<exists>n\<in>{min_n_components selector0 .. max_n_components selector0}. \<exists>b m.
      bic_spec stub_trainer selector0 n = Some (b, m) \<and>
      SelectorBIC_select stub_trainer selector0 = Inr (Some m) \<and>
      (\<forall>n'\<in>{min_n_components selector0 .. max_n_components selector0}. \<forall>b' m'.
         bic_spec stub_trainer selector0 n' = Some (b', m') \<longrightarrow> b' \<le> b))"
proof -
  have x: "X selector0 \<noteq> []" by (simp add: selector0_def)
  have "2 \<in> {min_n_components selector0 .. max_n_components selector0}"
    by (simp add: selector0_def)
  then have e: "\<exists>n\<in>{min_n_components selector0 .. max_n_components selector0}.
                 bic_spec stub_trainer selector0 n \<noteq> None"
    using bic0(1) by (intro bexI[of _ 2]) simp_all
  from x e bic0 BIC_stub_value SelectorBIC_select_max[OF x, of stub_trainer]
  show ?thesis by blast
qed

section \<open>SelectorCV: the fold loop and the candidate loop\<close>

lemma fold_result_frame [simp]:
  "fold_result T (s\<lparr>X := a, lengths := b\<rparr>) n f = fold_result T s n f"
  by (simp add: fold_result_def cong: sum.case_cong prod.case_cong)

lemma those_length: "those xs = Some ys \<Longrightarrow> length ys = length xs"
  by (induction xs arbitrary: ys) (auto split: option.splits)

lemma CV_folds_step_Some:
  assumes "fold_result T s n (tr, te) = Some (q, m)"
    and "sequences s1 = sequences s" and "random_state s1 = random_state s"
  shows "\<exists>a b. combine_sequences tr (sequences s) = Inr (a, b) \<and>
           CV_folds T n ((tr, te) # fs) s1 mv sc =
           CV_folds T n fs (s1\<lparr>X := a, lengths := b\<rparr>) (Some (Some m)) (sc @ [q])"
  using assms
  by (auto simp: fold_result_def base_model_def model_score_def Let_def
      split: sum.splits prod.splits)

lemma CV_folds_step_None:
  assumes "fold_result T s n (tr, te) = None"
    and "sequences s1 = sequences s" and "random_state s1 = random_state s"
  shows "\<exists>e s2 mv2. CV_folds T n ((tr, te) # fs) s1 mv sc = (Some e, s2, mv2, sc) \<and>
           (\<forall>a b. combine_sequences tr (sequences s) = Inr (a, b) \<longrightarrow>
                  s2 = s1\<lparr>X := a, lengths := b\<rparr>)"
  using assms
  by (auto simp: fold_result_def base_model_def model_score_def Let_def
      split: sum.splits prod.splits)

lemma CV_folds_frame:
  "\<exists>a b. fst (snd (CV_folds T n fs s1 mv sc)) = s1\<lparr>X := a, lengths := b\<rparr>"
proof (induction fs arbitrary: s1 mv sc)
  case Nil
  have "s1 = s1\<lparr>X := X s1, lengths := lengths s1\<rparr>" by simp
  then show ?case by (metis CV_folds.simps(1) fst_conv snd_conv)
next
  case (Cons f fs)
  obtain tr te where f: "f = (tr, te)" by (cases f)
  show ?case
  proof (cases "fold_result T s1 n (tr, te)")
    case None
    from CV_folds_step_None[OF None refl refl, of fs mv sc] obtain e s2 mv2 where
      h: "CV_folds T n ((tr, te) # fs) s1 mv sc = (Some e, s2, mv2, sc)"
         "\<forall>a b. combine_sequences tr (sequences s1) = Inr (a, b) \<longrightarrow> s2 = s1\<lparr>X := a, lengths := b\<rparr>"
      by blast
    show ?thesis
    proof (cases "combine_sequences tr (sequences s1)")
      case (Inl e')
      then have "CV_folds T n ((tr, te) # fs) s1 mv sc = (Some e', s1, mv, sc)" by simp
      moreover have "s1 = s1\<lparr>X := X s1, lengths := lengths s1\<rparr>" by simp
      ultimately show ?thesis unfolding f by (metis fst_conv snd_conv)
    next
      case (Inr ab)
      obtain a b where "ab = (a, b)" by (cases ab)
      with Inr h show ?thesis unfolding f by auto
    qed
  next
    case (Some c)
    obtain q m where "c = (q, m)" by (cases c)
    with Some CV_folds_step_Some[of T s1 n tr te q m s1 fs mv sc] obtain a b where
      h: "CV_folds T n ((tr, te) # fs) s1 mv sc =
          CV_folds T n fs (s1\<lparr>X := a, lengths := b\<rparr>) (Some (Some m)) (sc @ [q])" by auto
    from Cons.IH[of "s1\<lparr>X := a, lengths := b\<rparr>" "Some (Some m)" "sc @ [q]"] obtain a' b' where
      "fst (snd (CV_folds T n fs (s1\<lparr>X := a, lengths := b\<rparr>) (Some (Some m)) (sc @ [q]))) =
        s1\<lparr>X := a, lengths := b\<rparr>\<lparr>X := a', lengths := b'\<rparr>" by blast
    with h show ?thesis unfolding f by auto
  qed
qed

lemma CV_folds_those:
  assumes "sequences s1 = sequences s" and "random_state s1 = random_state s"
  shows "(\<forall>rs. those (map (fold_result T s n) fs) = Some rs \<longrightarrow>
            (\<exists>s2. CV_folds T n fs s1 mv sc =
               (None, s2, (if fs = [] then mv else Some (Some (snd (last rs)))), sc @ map fst rs))) \<and>
         (those (map (fold_result T s n) fs) = None \<longrightarrow>
            (\<exists>e s2 mv2 sc2. CV_folds T n fs s1 mv sc = (Some e, s2, mv2, sc2)))"
  using assms
proof (induction fs arbitrary: s1 mv sc)
  case Nil
  then show ?case by simp
next
  case (Cons f fs)
  obtain tr te where f: "f = (tr, te)" by (cases f)
  show ?case
  proof (cases "fold_result T s n (tr, te)")
    case None
    from CV_folds_step_None[OF None Cons.prems, of fs mv sc] None f show ?thesis by auto
  next
    case (Some c)
    obtain q m where c: "c = (q, m)" by (cases c)
    from Some c CV_folds_step_Some[of T s n tr te q m s1 fs mv sc] Cons.prems obtain a b where
      h: "CV_folds T n ((tr, te) # fs) s1 mv sc =
          CV_folds T n fs (s1\<lparr>X := a, lengths := b\<rparr>) (Some (Some m)) (sc @ [q])" by auto
    let ?s1 = "s1\<lparr>X := a, lengths := b\<rparr>"
    have "sequences ?s1 = sequences s" "random_state ?s1 = random_state s"
      using Cons.prems by simp_all
    note IH = Cons.IH[OF this, of "Some (Some m)" "sc @ [q]"]
    show ?thesis
    proof (cases "those (map (fold_result T s n) fs)")
      case None
      with IH obtain e s2 mv2 sc2 where
        "CV_folds T n fs ?s1 (Some (Some m)) (sc @ [q]) = (Some e, s2, mv2, sc2)" by blast
      with h None Some f show ?thesis by simp
    next
      case (Some rs')
      with IH obtain s2 where
        r: "CV_folds T n fs ?s1 (Some (Some m)) (sc @ [q]) =
            (None, s2, (if fs = [] then Some (Some m) else Some (Some (snd (last rs')))),
             (sc @ [q]) @ map fst rs')" by blast
      have len: "length rs' = length fs" using those_length[OF Some] by simp
      have th: "those (map (fold_result T s n) (f # fs)) = Some ((q, m) # rs')"
        using Some \<open>fold_result T s n (tr, te) = Some c\<close> c f by simp
      have lst: "(if fs = [] then Some (Some m) else Some (Some (snd (last rs')))) =
                 Some (Some (snd (last ((q, m) # rs'))))"
        using len by (cases fs) auto
      from h r th lst f show ?thesis by simp
    qed
  qed
qed

lemma CV_try_small:
  assumes "length (sequences s) < 3"
  shows "\<exists>mv'. CV_try T n (s, mv, acc) = (s, mv', acc @ cv_entries T s n)"
  using assms
  by (auto simp: CV_try_def cv_entries_def cv_quality_def base_model_def model_score_def
      entry_of_def np_mean_def split: sum.splits)

lemma CV_try_folds:
  assumes big: "\<not> length (sequences s) < 3"
    and H: "kfold_split T (random_state s) (sequences s) \<noteq> Inr []"
  shows "\<exists>a' b' mv'. CV_try T n (s\<lparr>X := a, lengths := b\<rparr>, mv, acc) =
           (s\<lparr>X := a', lengths := b'\<rparr>, mv', acc @ cv_entries T s n)"
proof -
  let ?s1 = "s\<lparr>X := a, lengths := b\<rparr>"
  have id: "?s1 = s\<lparr>X := a, lengths := b\<rparr>" by simp
  show ?thesis
  proof (cases "kfold_split T (random_state s) (sequences s)")
    case (Inl e)
    with big have "CV_try T n (?s1, mv, acc) = (?s1, mv, acc @ cv_entries T s n)"
      by (simp add: CV_try_def cv_entries_def cv_quality_def)
    then show ?thesis by blast
  next
    case (Inr fs)
    with H have fs: "fs \<noteq> []" by simp
    have ag: "sequences ?s1 = sequences s" "random_state ?s1 = random_state s" by simp_all
    note th = CV_folds_those[OF ag, of T n fs mv "[]"]
    from CV_folds_frame[of T n fs ?s1 mv "[]"] obtain a' b' where
      fr: "fst (snd (CV_folds T n fs ?s1 mv [])) = s\<lparr>X := a', lengths := b'\<rparr>" by auto
    show ?thesis
    proof (cases "those (map (fold_result T s n) fs)")
      case None
      with th obtain e s2 mv2 sc2 where
        r: "CV_folds T n fs ?s1 mv [] = (Some e, s2, mv2, sc2)" by blast
      with fr have s2: "s2 = s\<lparr>X := a', lengths := b'\<rparr>" by simp
      have "CV_try T n (?s1, mv, acc) = (s2, mv2, acc)"
        using big Inr r by (simp add: CV_try_def)
      moreover have "cv_entries T s n = []"
        using big Inr None by (simp add: cv_entries_def cv_quality_def)
      ultimately show ?thesis using s2 by auto
    next
      case (Some rs)
      with th fs obtain s2 where
        r: "CV_folds T n fs ?s1 mv [] = (None, s2, Some (Some (snd (last rs))), [] @ map fst rs)"
        by auto
      with fr have s2: "s2 = s\<lparr>X := a', lengths := b'\<rparr>" by simp
      have rne: "rs \<noteq> []" using those_length[OF Some] fs by auto
      have "CV_try T n (?s1, mv, acc) =
              (s2, Some (Some (snd (last rs))),
               acc @ [(np_mean (map fst rs), Some (snd (last rs)))])"
        using big Inr r by (simp add: CV_try_def)
      moreover have "cv_entries T s n = [(np_mean (map fst rs), Some (snd (last rs)))]"
        using big Inr Some rne by (simp add: cv_entries_def cv_quality_def entry_of_def np_mean_def)
      ultimately show ?thesis using s2 by auto
    qed
  qed
qed

lemma CV_try_entries:
  assumes H: "\<not> length (sequences s) < 3 \<longrightarrow> kfold_split T (random_state s) (sequences s) \<noteq> Inr []"
    and small: "length (sequences s) < 3 \<longrightarrow> a = X s \<and> b = lengths s"
  shows "\<exists>a' b' mv'. CV_try T n (s\<lparr>X := a, lengths := b\<rparr>, mv, acc) =
           (s\<lparr>X := a', lengths := b'\<rparr>, mv', acc @ cv_entries T s n) \<and>
           (length (sequences s) < 3 \<longrightarrow> a' = X s \<and> b' = lengths s)"
proof (cases "length (sequences s) < 3")
  case True
  with small have e: "s\<lparr>X := a, lengths := b\<rparr> = s" by simp
  from CV_try_small[OF True, of T n mv acc] obtain mv' where
    "CV_try T n (s, mv, acc) = (s, mv', acc @ cv_entries T s n)" by blast
  then have "CV_try T n (s\<lparr>X := a, lengths := b\<rparr>, mv, acc) =
          (s\<lparr>X := X s, lengths := lengths s\<rparr>, mv', acc @ cv_entries T s n)"
    unfolding e by simp
  then show ?thesis by blast
next
  case False
  with H have "kfold_split T (random_state s) (sequences s) \<noteq> Inr []" by simp
  from CV_try_folds[OF False this, where n = n and a = a and b = b and mv = mv and acc = acc] False
  show ?thesis by auto
qed

lemma CV_loop_entries:
  assumes H: "\<not> length (sequences s) < 3 \<longrightarrow> kfold_split T (random_state s) (sequences s) \<noteq> Inr []"
    and small: "length (sequences s) < 3 \<longrightarrow> a = X s \<and> b = lengths s"
  shows "\<exists>a' b' mv'. CV_loop T ns (s\<lparr>X := a, lengths := b\<rparr>, mv, acc) =
           (s\<lparr>X := a', lengths := b'\<rparr>, mv', acc @ concat (map (cv_entries T s) ns)) \<and>
           (length (sequences s) < 3 \<longrightarrow> a' = X s \<and> b' = lengths s)"
  using small
proof (induction ns arbitrary: a b mv acc)
  case Nil
  then show ?case by auto
next
  case (Cons n ns)
  from CV_try_entries[OF H Cons.prems, of n mv acc] obtain a1 b1 mv1 where
    t: "CV_try T n (s\<lparr>X := a, lengths := b\<rparr>, mv, acc) =
          (s\<lparr>X := a1, lengths := b1\<rparr>, mv1, acc @ cv_entries T s n)"
       "length (sequences s) < 3 \<longrightarrow> a1 = X s \<and> b1 = lengths s" by blast
  from Cons.IH[OF t(2), of mv1 "acc @ cv_entries T s n"] t(1) show ?case by simp
qed

lemma cv_entries_filter:
  "filter (\<lambda>x. fst x \<noteq> NaN) (concat (map (cv_entries T s) ns)) =
   map entry_of (List.map_filter (cv_quality T s) ns)"
  by (induction ns) (auto simp: cv_entries_def entry_of_def split: option.splits)

lemma cv_entries_hd:
  "concat (map (cv_entries T s) ns) \<noteq> [] \<Longrightarrow> fst (hd (concat (map (cv_entries T s) ns))) \<noteq> NaN"
proof (induction ns)
  case Nil
  then show ?case by simp
next
  case (Cons n ns)
  then show ?case
    by (cases "cv_quality T s n") (auto simp: cv_entries_def entry_of_def)
qed

lemma SelectorCV_select_pick:
  "SelectorCV_select T s =
     (case CV_loop T [min_n_components s .. max_n_components s] (s, None, []) of
        (s1, model, n_state_scores) \<Rightarrow> (pick_best n_state_scores, s1))"
  by (simp add: SelectorCV_select_def pick_best_def)

lemma CV_try_frame:
  "\<exists>a' b' mv' acc'. CV_try T n (s\<lparr>X := a, lengths := b\<rparr>, mv, acc) =
       (s\<lparr>X := a', lengths := b'\<rparr>, mv', acc') \<and>
     (length (sequences s) < 3 \<longrightarrow> a' = a \<and> b' = b)"
proof (cases "length (sequences s) < 3")
  case True
  let ?s1 = "s\<lparr>X := a, lengths := b\<rparr>"
  have "fst (CV_try T n (?s1, mv, acc)) = ?s1"
    using True by (simp add: CV_try_def split: sum.splits)
  then have "CV_try T n (?s1, mv, acc) =
         (?s1, fst (snd (CV_try T n (?s1, mv, acc))), snd (snd (CV_try T n (?s1, mv, acc))))"
    by (metis prod.collapse)
  then show ?thesis by blast
next
  case False
  let ?s1 = "s\<lparr>X := a, lengths := b\<rparr>"
  show ?thesis
  proof (cases "kfold_split T (random_state s) (sequences s)")
    case (Inl e)
    with False have "CV_try T n (?s1, mv, acc) = (?s1, mv, acc)" by (simp add: CV_try_def)
    with False show ?thesis by blast
  next
    case (Inr fs)
    from CV_folds_frame[where T = T and n = n and fs = fs and ?s1.0 = ?s1 and mv = mv and sc = "[]"]
    obtain a' b' where
      fr: "fst (snd (CV_folds T n fs ?s1 mv [])) = s\<lparr>X := a', lengths := b'\<rparr>" by auto
    obtain e s2 mv2 sc2 where r: "CV_folds T n fs ?s1 mv [] = (e, s2, mv2, sc2)"
      by (metis prod.collapse)
    with fr have s2: "s2 = s\<lparr>X := a', lengths := b'\<rparr>" by simp
    have "fst (CV_try T n (?s1, mv, acc)) = s2"
      using False Inr r by (simp add: CV_try_def split: option.splits)
    then have "CV_try T n (?s1, mv, acc) =
         (s2, fst (snd (CV_try T n (?s1, mv, acc))), snd (snd (CV_try T n (?s1, mv, acc))))"
      by (metis prod.collapse)
    with s2 False show ?thesis by blast
  qed
qed

lemma CV_loop_frame:
  "\<exists>a' b' mv' acc'. CV_loop T ns (s\<lparr>X := a, lengths := b\<rparr>, mv, acc) =
       (s\<lparr>X := a', lengths := b'\<rparr>, mv', acc') \<and>
     (length (sequences s) < 3 \<longrightarrow> a' = a \<and> b' = b)"
proof (induction ns arbitrary: a b mv acc)
  case Nil
  have "CV_loop T [] (s\<lparr>X := a, lengths := b\<rparr>, mv, acc) = (s\<lparr>X := a, lengths := b\<rparr>, mv, acc)"
    by simp
  then show ?case by blast
next
  case (Cons n ns)
  from CV_try_frame[where T = T and n = n and s = s and a = a and b = b and mv = mv and acc = acc] obtain a1 b1 mv1 acc1 where
    t: "CV_try T n (s\<lparr>X := a, lengths := b\<rparr>, mv, acc) = (s\<lparr>X := a1, lengths := b1\<rparr>, mv1, acc1)"
       "length (sequences s) < 3 \<longrightarrow> a1 = a \<and> b1 = b" by blast
  from Cons.IH[where a = a1 and b = b1 and mv = mv1 and acc = acc1] t show ?case by auto
qed

lemma SelectorCV_select_frame_aux:
  "\<exists>a b. snd (SelectorCV_select T s) = s\<lparr>X := a, lengths := b\<rparr> \<and>
         (length (sequences s) < 3 \<longrightarrow> a = X s \<and> b = lengths s)"
proof -
  from CV_loop_frame[where T = T and ns = "[min_n_components s .. max_n_components s]" and s = s
      and a = "X s" and b = "lengths s" and mv = None and acc = "[]"]
  obtain a' b' mv' acc' where
    "CV_loop T [min_n_components s .. max_n_components s] (s, None, []) =
       (s\<lparr>X := a', lengths := b'\<rparr>, mv', acc')"
    "length (sequences s) < 3 \<longrightarrow> a' = X s \<and> b' = lengths s" by auto
  then show ?thesis by (auto simp: SelectorCV_select_def)
qed

lemma base_model_same_seeded:
  assumes "same_seeded (random_state s1) T1 T2" and "random_state s1 = random_state s2"
    and "X s1 = X s2" and "lengths s1 = lengths s2"
  shows "base_model T1 s1 n = base_model T2 s2 n"
  using assms by (simp add: base_model_def same_seeded_def)

lemma model_score_same_seeded:
  assumes "same_seeded seed T1 T2"
  shows "model_score T1 model obs lens = model_score T2 model obs lens"
  using assms by (simp add: model_score_def same_seeded_def split: option.split)

lemma CV_folds_agree2:
  assumes ss: "same_seeded (random_state s2) T1 T2"
    and "sequences s1 = sequences s2" and "random_state s1 = random_state s2"
  shows "fst (CV_folds T1 n fs s1 mv sc) = fst (CV_folds T2 n fs s2 mv sc) \<and>
         snd (snd (CV_folds T1 n fs s1 mv sc)) = snd (snd (CV_folds T2 n fs s2 mv sc))"
  using assms(2,3) ss
proof (induction fs arbitrary: s1 s2 mv sc)
  case Nil
  show ?case by simp
next
  case (Cons f fs)
  obtain tr te where f: "f = (tr, te)" by (cases f)
  show ?case
  proof (cases "combine_sequences tr (sequences s2)")
    case (Inl e)
    with Cons.prems f show ?thesis by simp
  next
    case (Inr ab)
    note ctr = this
    obtain a b where ab: "ab = (a, b)" by (cases ab)
    let ?t1 = "s1\<lparr>X := a, lengths := b\<rparr>" and ?t2 = "s2\<lparr>X := a, lengths := b\<rparr>"
    have sst: "same_seeded (random_state ?t1) T1 T2" using Cons.prems by simp
    have bm: "base_model T1 ?t1 n = base_model T2 ?t2 n"
      by (rule base_model_same_seeded[OF sst]) (use Cons.prems in simp_all)
    show ?thesis
    proof (cases "combine_sequences te (sequences s2)")
      case (Inl e)
      with Cons.prems f ctr ab show ?thesis by simp
    next
      case (Inr cd)
      note cte = this
      obtain c d where cd: "cd = (c, d)" by (cases cd)
      show ?thesis
      proof (cases "base_model T2 ?t2 n")
        case (Inl e)
        with Cons.prems f ctr ab cte cd bm show ?thesis by simp
      next
        case (Inr model1)
        note bm2 = this
        have ms: "model_score T1 model1 c d = model_score T2 model1 c d"
          by (rule model_score_same_seeded[OF Cons.prems(3)])
        show ?thesis
        proof (cases "model_score T2 model1 c d")
          case (Inl e)
          with Cons.prems f ctr ab cte cd bm bm2 ms show ?thesis by simp
        next
          case (Inr v)
          have sq: "sequences ?t1 = sequences ?t2" "random_state ?t1 = random_state ?t2"
            using Cons.prems by simp_all
          have ss2: "same_seeded (random_state ?t2) T1 T2" using Cons.prems by simp
          note IH = Cons.IH[OF sq ss2, where mv = "Some model1" and sc = "sc @ [v]"]
          have e1: "CV_folds T1 n (f # fs) s1 mv sc = CV_folds T1 n fs ?t1 (Some model1) (sc @ [v])"
            using Cons.prems(1) f ctr ab cte cd bm bm2 ms Inr by simp
          have e2: "CV_folds T2 n (f # fs) s2 mv sc = CV_folds T2 n fs ?t2 (Some model1) (sc @ [v])"
            using f ctr ab cte cd bm2 Inr by simp
          from IH show ?thesis unfolding e1 e2 .
        qed
      qed
    qed
  qed
qed

lemma CV_try_agree2:
  assumes ss: "same_seeded (random_state s2) T1 T2"
    and "sequences s1 = sequences s2" and "random_state s1 = random_state s2"
    and "length (sequences s1) < 3 \<longrightarrow> X s1 = X s2 \<and> lengths s1 = lengths s2"
  shows "snd (CV_try T1 n (s1, mv, acc)) = snd (CV_try T2 n (s2, mv, acc))"
proof (cases "length (sequences s1) < 3")
  case True
  with assms have xl: "X s1 = X s2" "lengths s1 = lengths s2" by simp_all
  have ss1: "same_seeded (random_state s1) T1 T2" using ss assms(3) by simp
  have bm: "base_model T1 s1 n = base_model T2 s2 n"
    by (rule base_model_same_seeded[OF ss1 assms(3) xl])
  have ms: "model_score T1 model obs lens = model_score T2 model obs lens" for model obs lens
    by (rule model_score_same_seeded[OF ss])
  from True assms(2) bm xl ms show ?thesis
    by (simp add: CV_try_def split: sum.splits)
next
  case False
  have kf: "kfold_split T1 (random_state s1) (sequences s1) =
            kfold_split T2 (random_state s2) (sequences s2)"
    using ss assms(2,3) by (simp add: same_seeded_def)
  show ?thesis
  proof (cases "kfold_split T2 (random_state s2) (sequences s2)")
    case (Inl e)
    with False assms(2) kf show ?thesis by (simp add: CV_try_def)
  next
    case (Inr fs)
    obtain e1 t1 m1 c1 where r1: "CV_folds T1 n fs s1 mv [] = (e1, t1, m1, c1)"
      by (metis prod.collapse)
    obtain e2 t2 m2 c2 where r2: "CV_folds T2 n fs s2 mv [] = (e2, t2, m2, c2)"
      by (metis prod.collapse)
    from CV_folds_agree2[OF ss assms(2,3), where n = n and fs = fs and mv = mv and sc = "[]"] r1 r2
    have "e1 = e2" "m1 = m2" "c1 = c2" by simp_all
    with False assms(2) kf Inr r1 r2 show ?thesis
      by (simp add: CV_try_def split: option.splits)
  qed
qed

lemma CV_loop_agree2:
  assumes "length (sequences s1) < 3 \<longrightarrow> a1 = a2 \<and> b1 = b2"
    and "sequences s1 = sequences s2" and "random_state s1 = random_state s2"
    and ss: "same_seeded (random_state s2) T1 T2"
  shows "snd (CV_loop T1 ns (s1\<lparr>X := a1, lengths := b1\<rparr>, mv, acc)) =
         snd (CV_loop T2 ns (s2\<lparr>X := a2, lengths := b2\<rparr>, mv, acc))"
  using assms(1)
proof (induction ns arbitrary: a1 b1 a2 b2 mv acc)
  case Nil
  show ?case by simp
next
  case (Cons n ns)
  let ?u1 = "s1\<lparr>X := a1, lengths := b1\<rparr>" and ?u2 = "s2\<lparr>X := a2, lengths := b2\<rparr>"
  from CV_try_frame[where T = T1 and n = n and s = s1 and a = a1 and b = b1 and mv = mv and acc = acc]
  obtain a1' b1' mv1 acc1 where
    t1: "CV_try T1 n (?u1, mv, acc) = (s1\<lparr>X := a1', lengths := b1'\<rparr>, mv1, acc1)"
        "length (sequences s1) < 3 \<longrightarrow> a1' = a1 \<and> b1' = b1" by blast
  from CV_try_frame[where T = T2 and n = n and s = s2 and a = a2 and b = b2 and mv = mv and acc = acc]
  obtain a2' b2' mv2 acc2 where
    t2: "CV_try T2 n (?u2, mv, acc) = (s2\<lparr>X := a2', lengths := b2'\<rparr>, mv2, acc2)"
        "length (sequences s2) < 3 \<longrightarrow> a2' = a2 \<and> b2' = b2" by blast
  have ss': "same_seeded (random_state ?u2) T1 T2" using ss by simp
  have "snd (CV_try T1 n (?u1, mv, acc)) = snd (CV_try T2 n (?u2, mv, acc))"
    by (rule CV_try_agree2[OF ss']) (use assms(2,3) Cons.prems in simp_all)
  with t1(1) t2(1) have e: "mv1 = mv2" "acc1 = acc2" by simp_all
  have "length (sequences s1) < 3 \<longrightarrow> a1' = a2' \<and> b1' = b2'"
    using t1(2) t2(2) Cons.prems assms(2) by simp
  from Cons.IH[OF this, where mv = mv1 and acc = acc1] t1(1) t2(1) e show ?case by simp
qed

lemma CV_loop_no_folds:
  assumes "\<not> length (sequences s) < 3" and "kfold_split T (random_state s) (sequences s) = Inr []"
  shows "CV_loop T ns (s, None, acc) = (s, None, acc)"
proof (induction ns)
  case Nil
  show ?case by simp
next
  case (Cons n ns)
  have "CV_try T n (s, None, acc) = (s, None, acc)"
    using assms by (simp add: CV_try_def)
  with Cons show ?case by simp
qed

lemma CV_loop_split_raises:
  assumes "\<not> length (sequences s) < 3" and "kfold_split T (random_state s) (sequences s) = Inl e"
  shows "CV_loop T ns (s, mv, acc) = (s, mv, acc)"
proof (induction ns)
  case Nil
  show ?case by simp
next
  case (Cons n ns)
  have "CV_try T n (s, mv, acc) = (s, mv, acc)"
    using assms by (simp add: CV_try_def)
  with Cons show ?case by simp
qed

lemma SelectorCV_select_untouched:
  assumes "max_n_components s < min_n_components s \<or>
           (\<exists>e. kfold_split T (random_state s) (sequences s) = Inl e) \<or>
           kfold_split T (random_state s) (sequences s) = Inr []"
  shows "snd (SelectorCV_select T s) = s"
proof (cases "length (sequences s) < 3")
  case True
  with SelectorCV_select_frame_aux[of T s] show ?thesis by auto
next
  case False
  let ?ns = "[min_n_components s .. max_n_components s]"
  have "CV_loop T ?ns (s, None, []) = (s, None, [])"
  proof -
    consider "max_n_components s < min_n_components s"
      | e where "kfold_split T (random_state s) (sequences s) = Inl e"
      | "kfold_split T (random_state s) (sequences s) = Inr []"
      using assms by blast
    then show ?thesis
    proof cases
      case 1
      then show ?thesis by simp
    next
      case 2
      from CV_loop_split_raises[OF False 2] show ?thesis .
    next
      case 3
      from CV_loop_no_folds[OF False 3] show ?thesis .
    qed
  qed
  then show ?thesis by (simp add: SelectorCV_select_def)
qed

lemma combine_sequences_length:
  "combine_sequences idx seqs = Inr (a, b) \<Longrightarrow> length b = length idx"
  by (induction idx arbitrary: a b) (auto split: if_splits sum.splits prod.splits)

lemma CV_folds_last:
  assumes "last_evaluated T s n fs = Some (tr, te)"
    and "combine_sequences tr (sequences s) = Inr (a, b)"
  shows "fst (snd (CV_folds T n fs (s\<lparr>X := a0, lengths := b0\<rparr>) mv sc)) = s\<lparr>X := a, lengths := b\<rparr>"
  using assms(1)
proof (induction fs arbitrary: a0 b0 mv sc)
  case Nil
  then show ?case by simp
next
  case (Cons f fs)
  obtain tr0 te0 where f: "f = (tr0, te0)" by (cases f)
  let ?s1 = "s\<lparr>X := a0, lengths := b0\<rparr>"
  have ag: "sequences ?s1 = sequences s" "random_state ?s1 = random_state s" by simp_all
  show ?case
  proof (cases "fold_result T s n (tr0, te0)")
    case None
    with Cons.prems f have "tr = tr0" by simp
    from CV_folds_step_None[OF None ag, where fs = fs and mv = mv and sc = sc] obtain e s2 mv2 where
      h: "CV_folds T n ((tr0, te0) # fs) ?s1 mv sc = (Some e, s2, mv2, sc)"
         "\<forall>a b. combine_sequences tr0 (sequences s) = Inr (a, b) \<longrightarrow> s2 = ?s1\<lparr>X := a, lengths := b\<rparr>"
      by blast
    from h(2) assms(2) \<open>tr = tr0\<close> have "s2 = s\<lparr>X := a, lengths := b\<rparr>" by simp
    with h(1) f show ?thesis by simp
  next
    case (Some c)
    obtain q m where c: "c = (q, m)" by (cases c)
    from Some c CV_folds_step_Some[where T = T and s = s and n = n and tr = tr0 and te = te0
        and q = q and m = m and ?s1.0 = ?s1 and fs = fs and mv = mv and sc = sc] ag
    obtain a1 b1 where
      h: "combine_sequences tr0 (sequences s) = Inr (a1, b1)"
         "CV_folds T n ((tr0, te0) # fs) ?s1 mv sc =
          CV_folds T n fs (?s1\<lparr>X := a1, lengths := b1\<rparr>) (Some (Some m)) (sc @ [q])" by auto
    have u: "?s1\<lparr>X := a1, lengths := b1\<rparr> = s\<lparr>X := a1, lengths := b1\<rparr>" by simp
    show ?thesis
    proof (cases fs)
      case Nil
      with Cons.prems f have "tr = tr0" by simp
      with h(1) assms(2) have "a1 = a" "b1 = b" by simp_all
      with h(2) Nil f show ?thesis by simp
    next
      case (Cons g gs)
      with Cons.prems Some f have "last_evaluated T s n fs = Some (tr, te)" by simp
      from Cons.IH[OF this, where ?a0.0 = a1 and ?b0.0 = b1 and mv = "Some (Some m)" and sc = "sc @ [q]"]
      show ?thesis unfolding f h(2) u .
    qed
  qed
qed

lemma CV_loop_append: "CV_loop T (xs @ ys) st = CV_loop T ys (CV_loop T xs st)"
  by (induction xs arbitrary: st) simp_all

lemma CV_try_selector:
  assumes "\<not> length (sequences s1) < 3" and "kfold_split T (random_state s1) (sequences s1) = Inr fs"
  shows "fst (CV_try T n (s1, mv, acc)) = fst (snd (CV_folds T n fs s1 mv []))"
proof -
  obtain e s2 mv2 sc2 where r: "CV_folds T n fs s1 mv [] = (e, s2, mv2, sc2)"
    by (metis prod.collapse)
  with assms show ?thesis by (simp add: CV_try_def split: option.splits)
qed

section \<open>SelectorCV on the concrete inputs\<close>

lemma kfold0:
  "kfold_split stub_trainer (random_state selector0) (sequences selector0) =
     Inr [([1, 2], [0]), ([0, 2], [1]), ([0, 1], [2])]"
  by (simp add: stub_trainer_def selector0_def)

lemma fold_results0:
  "fold_result stub_trainer selector0 2 ([1, 2], [0]) = Some (6, (2, 1))"
  "fold_result stub_trainer selector0 2 ([0, 2], [1]) = Some (7, (2, 1))"
  "fold_result stub_trainer selector0 2 ([0, 1], [2]) = Some (6, (2, 1))"
  "fold_result stub_trainer selector0 3 ([1, 2], [0]) = Some (7, (3, 1))"
  "fold_result stub_trainer selector0 3 ([0, 2], [1]) = Some (8, (3, 1))"
  "fold_result stub_trainer selector0 3 ([0, 1], [2]) = Some (7, (3, 1))"
  "fold_result stub_trainer selector0 4 ([1, 2], [0]) = None"
  by (simp_all add: fold_result_def stub_trainer_def selector0_def)

lemma cv_quality0:
  "cv_quality stub_trainer selector0 2 = Some (19 / 3, (2, 1))"
  "cv_quality stub_trainer selector0 3 = Some (22 / 3, (3, 1))"
  "cv_quality stub_trainer selector0 4 = None"
  by (simp_all add: cv_quality_def kfold0 fold_results0 del: One_nat_def)
    (simp_all add: selector0_def)

lemma cv_quality1:
  "cv_quality stub_trainer selector1 2 = Some (6, (2, 1))"
  "cv_quality stub_trainer selector1 3 = None"
  "cv_quality stub_trainer selector1 4 = None"
  by (simp_all add: cv_quality_def stub_trainer_def selector1_def)

lemma CV_stub_value:
  "SelectorCV_select stub_trainer selector0 =
     (Inr (Some (3, 1)), selector0\<lparr>X := [[2], [3], [4]], lengths := [1, 2]\<rparr>)"
  by (simp add: SelectorCV_select_def selector0_def upto_2_4 CV_try_def stub_trainer_def
      base_model_def model_score_def np_mean_def py_max_key_def)

lemma CV_stub_value1:
  "SelectorCV_select stub_trainer selector1 = (Inr (Some (2, 1)), selector1)"
  by (simp add: SelectorCV_select_def selector1_def upto_2_4 CV_try_def stub_trainer_def
      base_model_def model_score_def np_mean_def py_max_key_def)

lemma same_seeded_other_run: "same_seeded 14 stub_trainer other_run_trainer"
  by (simp add: same_seeded_def other_run_trainer_def)

lemma CV_other_seed_values:
  "fst (SelectorCV_select stub_trainer (selector0\<lparr>random_state := 0\<rparr>)) = Inr (Some (3, 1))"
  "fst (SelectorCV_select other_run_trainer (selector0\<lparr>random_state := 0\<rparr>)) = Inr None"
  by (simp_all add: SelectorCV_select_def selector0_def upto_2_4 CV_try_def stub_trainer_def
      other_run_trainer_def base_model_def model_score_def np_mean_def py_max_key_def)

lemma kfold_five: "kfold_split five_fold_trainer (random_state selector0) (sequences selector0) =
                   Inl ValueError"
  by (simp add: five_fold_trainer_def selector0_def)

lemma last_evaluated0:
  "last_evaluated stub_trainer selector0 (max_n_components selector0)
     [([1, 2], [0]), ([0, 2], [1]), ([0, 1], [2])] = Some ([1, 2], [0])"
proof -
  have "max_n_components selector0 = 4" by (simp add: selector0_def)
  then show ?thesis by (simp add: fold_results0 del: One_nat_def)
qed

lemma combine0:
  "combine_sequences [1, 2] (sequences selector0) = Inr ([[2], [3], [4]], [1, 2])"
  by (simp add: selector0_def)

section \<open>SelectorCV: the claims\<close>

text \<open>
  Claim C3. Provided the split, when it is used, yields at least one fold,
  \<^verbatim>\<open>SelectorCV.select\<close> returns \<^verbatim>\<open>None\<close> when no candidate of the range has a quality, and
  otherwise the model associated with a candidate of greatest quality. The quality of a
  candidate is the single score of the single fit on the full data for a word with fewer
  than three sequences, and the arithmetic mean of the per-fold held-out log-likelihoods
  otherwise, the associated model being the one fitted in the last fold; a candidate with a
  failing fit or score in any fold has no quality.
\<close>

theorem SelectorCV_select_max:
  assumes "3 \<le> length (sequences s) \<longrightarrow> kfold_split T (random_state s) (sequences s) \<noteq> Inr []"
  shows "((\<forall>n\<in>{min_n_components s .. max_n_components s}. cv_quality T s n = None) \<longrightarrow>
            fst (SelectorCV_select T s) = Inr None) \<and>
         ((\<exists>n\<in>{min_n_components s .. max_n_components s}. cv_quality T s n \<noteq> None) \<longrightarrow>
            (\<exists>n\<in>{min_n_components s .. max_n_components s}. \<exists>q m.
               cv_quality T s n = Some (q, m) \<and> fst (SelectorCV_select T s) = Inr (Some m) \<and>
               (\<forall>n'\<in>{min_n_components s .. max_n_components s}. \<forall>q' m'.
                  cv_quality T s n' = Some (q', m') \<longrightarrow> q' \<le> q)))"
proof -
  let ?ns = "[min_n_components s .. max_n_components s]"
  have H: "\<not> length (sequences s) < 3 \<longrightarrow> kfold_split T (random_state s) (sequences s) \<noteq> Inr []"
    using assms by simp
  have "length (sequences s) < 3 \<longrightarrow> X s = X s \<and> lengths s = lengths s" by simp
  from CV_loop_entries[OF H this, of ?ns None "[]"] obtain a' b' mv' where
    l: "CV_loop T ?ns (s, None, []) =
          (s\<lparr>X := a', lengths := b'\<rparr>, mv', concat (map (cv_entries T s) ?ns))" by auto
  have r: "fst (SelectorCV_select T s) = pick_best (concat (map (cv_entries T s) ?ns))"
    by (simp add: SelectorCV_select_pick l)
  have hd: "concat (map (cv_entries T s) ?ns) \<noteq> [] \<longrightarrow>
            fst (hd (concat (map (cv_entries T s) ?ns))) \<noteq> NaN"
    using cv_entries_hd by blast
  from pick_best_candidates[OF cv_entries_filter hd] show ?thesis
    unfolding r by simp
qed

theorem SelectorCV_select_max_witness:
  "3 \<le> length (sequences selector0) \<and>
   kfold_split stub_trainer (random_state selector0) (sequences selector0) =
     Inr [([1, 2], [0]), ([0, 2], [1]), ([0, 1], [2])] \<and>
   cv_quality stub_trainer selector0 2 = Some (19 / 3, (2, 1)) \<and>
   cv_quality stub_trainer selector0 3 = Some (22 / 3, (3, 1)) \<and>
   cv_quality stub_trainer selector0 4 = None \<and>
   fst (SelectorCV_select stub_trainer selector0) = Inr (Some (3, 1)) \<and>
   (\<exists>n\<in>{min_n_components selector0 .. max_n_components selector0}. \<exists>q m.
      cv_quality stub_trainer selector0 n = Some (q, m) \<and>
      fst (SelectorCV_select stub_trainer selector0) = Inr (Some m) \<and>
      (\<forall>n'\<in>{min_n_components selector0 .. max_n_components selector0}. \<forall>q' m'.
         cv_quality stub_trainer selector0 n' = Some (q', m') \<longrightarrow> q' \<le> q)) \<and>
   length (sequences selector1) < 3 \<and>
   cv_quality stub_trainer selector1 2 = Some (6, (2, 1)) \<and>
   fst (SelectorCV_select stub_trainer selector1) = Inr (Some (2, 1)) \<and>
   (\<exists>n\<in>{min_n_components selector1 .. max_n_components selector1}. \<exists>q m.
      cv_quality stub_trainer selector1 n = Some (q, m) \<and>
      fst (SelectorCV_select stub_trainer selector1) = Inr (Some m) \<and>
      (\<forall>n'\<in>{min_n_components selector1 .. max_n_components selector1}. \<forall>q' m'.
         cv_quality stub_trainer selector1 n' = Some (q', m') \<longrightarrow> q' \<le> q))"
proof -
  have l0: "3 \<le> length (sequences selector0)" by (simp add: selector0_def)
  have l1: "length (sequences selector1) < 3" by (simp add: selector1_def)
  have h0: "3 \<le> length (sequences selector0) \<longrightarrow>
            kfold_split stub_trainer (random_state selector0) (sequences selector0) \<noteq> Inr []"
    by (simp add: kfold0)
  have h1: "3 \<le> length (sequences selector1) \<longrightarrow>
            kfold_split stub_trainer (random_state selector1) (sequences selector1) \<noteq> Inr []"
    using l1 by simp
  have "2 \<in> {min_n_components selector0 .. max_n_components selector0}"
    by (simp add: selector0_def)
  then have e0: "\<exists>n\<in>{min_n_components selector0 .. max_n_components selector0}.
                 cv_quality stub_trainer selector0 n \<noteq> None"
    using cv_quality0(1) by (intro bexI[of _ 2]) simp_all
  have "2 \<in> {min_n_components selector1 .. max_n_components selector1}"
    by (simp add: selector1_def)
  then have e1: "\<exists>n\<in>{min_n_components selector1 .. max_n_components selector1}.
                 cv_quality stub_trainer selector1 n \<noteq> None"
    using cv_quality1(1) by (intro bexI[of _ 2]) simp_all
  have v0: "fst (SelectorCV_select stub_trainer selector0) = Inr (Some (3, 1))"
    by (simp add: CV_stub_value)
  have v1: "fst (SelectorCV_select stub_trainer selector1) = Inr (Some (2, 1))"
    by (simp add: CV_stub_value1)
  from l0 l1 kfold0 cv_quality0 cv_quality1(1) v0 v1 e0 e1
    SelectorCV_select_max[OF h0] SelectorCV_select_max[OF h1]
  show ?thesis by blast
qed

text \<open>
  Claim C8. Two runs of \<^verbatim>\<open>SelectorCV.select\<close> return the same model (hence the same state
  count) when the selectors have the same sequences, range of state counts and
  \<^verbatim>\<open>random_state\<close> (and, for a word with fewer than three sequences, the same \<^verbatim>\<open>X\<close> and
  \<^verbatim>\<open>lengths\<close>), and the external fit and fold split of the two runs are only known to agree
  on calls seeded with that \<^verbatim>\<open>random_state\<close>: every fit and every split the selector
  requests is seeded with it. A run on the selector another run left behind returns the same
  model again.
\<close>

theorem SelectorCV_select_deterministic:
  assumes "sequences s1 = sequences s2" and "random_state s1 = random_state s2"
    and "min_n_components s1 = min_n_components s2"
    and "max_n_components s1 = max_n_components s2"
    and "length (sequences s1) < 3 \<longrightarrow> X s1 = X s2 \<and> lengths s1 = lengths s2"
    and "same_seeded (random_state s1) T1 T2"
  shows "fst (SelectorCV_select T1 s1) = fst (SelectorCV_select T2 s2) \<and>
         fst (SelectorCV_select T2 (snd (SelectorCV_select T1 s1))) = fst (SelectorCV_select T1 s1)"
proof -
  have main: "fst (SelectorCV_select T1 u1) = fst (SelectorCV_select T2 u2)"
    if "sequences u1 = sequences u2" "random_state u1 = random_state u2"
       "min_n_components u1 = min_n_components u2" "max_n_components u1 = max_n_components u2"
       "length (sequences u1) < 3 \<longrightarrow> X u1 = X u2 \<and> lengths u1 = lengths u2"
       "same_seeded (random_state u2) T1 T2" for u1 u2
  proof -
    let ?ns = "[min_n_components u2 .. max_n_components u2]"
    have "snd (CV_loop T1 ?ns (u1\<lparr>X := X u1, lengths := lengths u1\<rparr>, None, [])) =
          snd (CV_loop T2 ?ns (u2\<lparr>X := X u2, lengths := lengths u2\<rparr>, None, []))"
      by (rule CV_loop_agree2) (use that in simp_all)
    then have "snd (snd (CV_loop T1 ?ns (u1, None, []))) = snd (snd (CV_loop T2 ?ns (u2, None, [])))"
      by simp
    then show ?thesis
      using that(3,4) by (simp add: SelectorCV_select_pick case_prod_unfold)
  qed
  have ss2: "same_seeded (random_state s2) T1 T2" using assms(2,6) by simp
  have first: "fst (SelectorCV_select T1 s1) = fst (SelectorCV_select T2 s2)"
    by (rule main[OF assms(1-5) ss2])
  from SelectorCV_select_frame_aux[of T1 s1] obtain a b where
    fr: "snd (SelectorCV_select T1 s1) = s1\<lparr>X := a, lengths := b\<rparr>"
        "length (sequences s1) < 3 \<longrightarrow> a = X s1 \<and> b = lengths s1" by blast
  have "fst (SelectorCV_select T1 (s1\<lparr>X := a, lengths := b\<rparr>)) = fst (SelectorCV_select T2 s2)"
    by (rule main) (use fr(2) assms ss2 in simp_all)
  moreover have "fst (SelectorCV_select T1 (s1\<lparr>X := a, lengths := b\<rparr>)) =
                 fst (SelectorCV_select T2 (s1\<lparr>X := a, lengths := b\<rparr>))"
    by (rule main) (use assms(6) in simp_all)
  ultimately show ?thesis using first fr(1) by simp
qed

theorem SelectorCV_select_deterministic_witness:
  "sequences selector0 = sequences (selector0\<lparr>X := [], lengths := [], verbose := True\<rparr>) \<and>
   random_state selector0 = random_state (selector0\<lparr>X := [], lengths := [], verbose := True\<rparr>) \<and>
   min_n_components selector0 =
     min_n_components (selector0\<lparr>X := [], lengths := [], verbose := True\<rparr>) \<and>
   max_n_components selector0 =
     max_n_components (selector0\<lparr>X := [], lengths := [], verbose := True\<rparr>) \<and>
   3 \<le> length (sequences selector0) \<and>
   same_seeded (random_state selector0) stub_trainer other_run_trainer \<and>
   fit stub_trainer 1 0 [[0]] [1] \<noteq> fit other_run_trainer 1 0 [[0]] [1] \<and>
   fst (SelectorCV_select stub_trainer (selector0\<lparr>random_state := 0\<rparr>)) \<noteq>
     fst (SelectorCV_select other_run_trainer (selector0\<lparr>random_state := 0\<rparr>)) \<and>
   fst (SelectorCV_select stub_trainer selector0) = Inr (Some (3, 1)) \<and>
   fst (SelectorCV_select stub_trainer selector0) =
     fst (SelectorCV_select other_run_trainer
            (selector0\<lparr>X := [], lengths := [], verbose := True\<rparr>)) \<and>
   fst (SelectorCV_select other_run_trainer (snd (SelectorCV_select stub_trainer selector0))) =
     fst (SelectorCV_select stub_trainer selector0)"
proof -
  let ?s2 = "selector0\<lparr>X := [], lengths := [], verbose := True\<rparr>"
  have a: "sequences selector0 = sequences ?s2" "random_state selector0 = random_state ?s2"
    "min_n_components selector0 = min_n_components ?s2"
    "max_n_components selector0 = max_n_components ?s2" by simp_all
  have l0: "3 \<le> length (sequences selector0)" by (simp add: selector0_def)
  then have b: "length (sequences selector0) < 3 \<longrightarrow>
             X selector0 = X ?s2 \<and> lengths selector0 = lengths ?s2" by simp
  have ss: "same_seeded (random_state selector0) stub_trainer other_run_trainer"
    using same_seeded_other_run by (simp add: selector0_def)
  have d1: "fit stub_trainer 1 0 [[0]] [1] \<noteq> fit other_run_trainer 1 0 [[0]] [1]"
    by (simp add: stub_trainer_def other_run_trainer_def)
  have d2: "fst (SelectorCV_select stub_trainer (selector0\<lparr>random_state := 0\<rparr>)) \<noteq>
     fst (SelectorCV_select other_run_trainer (selector0\<lparr>random_state := 0\<rparr>))"
    by (simp add: CV_other_seed_values)
  have v0: "fst (SelectorCV_select stub_trainer selector0) = Inr (Some (3, 1))"
    by (simp add: CV_stub_value)
  from a l0 ss d1 d2 v0 SelectorCV_select_deterministic[OF a b ss]
  show ?thesis by blast
qed

text \<open>
  Claim C9, as stated, fails: for a word with three sequences and a split that raises (five
  folds requested), and for an empty range of candidates, \<^verbatim>\<open>X\<close> and \<^verbatim>\<open>lengths\<close> hold the
  original full data after the call.
\<close>

theorem SelectorCV_select_frame_counterexample:
  "3 \<le> length (sequences selector0) \<and>
   kfold_split five_fold_trainer (random_state selector0) (sequences selector0) = Inl ValueError \<and>
   X selector0 = [[0], [1], [2], [3], [4]] \<and> lengths selector0 = [2, 1, 2] \<and>
   X (snd (SelectorCV_select five_fold_trainer selector0)) = [[0], [1], [2], [3], [4]] \<and>
   lengths (snd (SelectorCV_select five_fold_trainer selector0)) = [2, 1, 2] \<and>
   X (snd (SelectorCV_select stub_trainer (selector0\<lparr>min_n_components := 5\<rparr>))) =
     [[0], [1], [2], [3], [4]] \<and>
   lengths (snd (SelectorCV_select stub_trainer (selector0\<lparr>min_n_components := 5\<rparr>))) =
     [2, 1, 2]"
proof -
  have "snd (SelectorCV_select five_fold_trainer selector0) = selector0"
    by (rule SelectorCV_select_untouched) (simp add: kfold_five)
  moreover have "snd (SelectorCV_select stub_trainer (selector0\<lparr>min_n_components := 5\<rparr>)) =
                 selector0\<lparr>min_n_components := 5\<rparr>"
    by (rule SelectorCV_select_untouched) (simp add: selector0_def)
  ultimately show ?thesis by (simp add: kfold_five) (simp add: selector0_def)
qed

text \<open>
  Claim C9, amended. \<^verbatim>\<open>SelectorCV.select\<close> changes no field of the selector other than
  \<^verbatim>\<open>X\<close> and \<^verbatim>\<open>lengths\<close>. It changes none for a word with fewer than three sequences, for
  an empty range of candidates, and when the split raises or yields no fold. For a word with
  at least three sequences, a non-empty range and a split that yields folds, the two fields
  hold after the call the training concatenation of the last evaluated fold, the fold at
  which the fold loop of the last candidate stopped; its \<^verbatim>\<open>lengths\<close> differ from the
  original ones when that fold trains on fewer sequences than the word has.
\<close>

theorem SelectorCV_select_frame:
  "(\<exists>a b. snd (SelectorCV_select T s) = s\<lparr>X := a, lengths := b\<rparr>) \<and>
   (length (sequences s) < 3 \<longrightarrow> snd (SelectorCV_select T s) = s) \<and>
   (max_n_components s < min_n_components s \<or>
    (\<exists>e. kfold_split T (random_state s) (sequences s) = Inl e) \<or>
    kfold_split T (random_state s) (sequences s) = Inr [] \<longrightarrow>
      snd (SelectorCV_select T s) = s) \<and>
   (3 \<le> length (sequences s) \<and> min_n_components s \<le> max_n_components s \<and>
    kfold_split T (random_state s) (sequences s) = Inr fs \<and>
    last_evaluated T s (max_n_components s) fs = Some (tr, te) \<and>
    combine_sequences tr (sequences s) = Inr (a, b) \<longrightarrow>
      snd (SelectorCV_select T s) = s\<lparr>X := a, lengths := b\<rparr> \<and>
      (length tr < length (sequences s) \<and> length (lengths s) = length (sequences s) \<longrightarrow>
         lengths (snd (SelectorCV_select T s)) \<noteq> lengths s))"
proof (intro conjI impI)
  from SelectorCV_select_frame_aux[of T s]
  show "\<exists>a b. snd (SelectorCV_select T s) = s\<lparr>X := a, lengths := b\<rparr>" by blast
next
  assume "length (sequences s) < 3"
  with SelectorCV_select_frame_aux[of T s] show "snd (SelectorCV_select T s) = s" by auto
next
  assume "max_n_components s < min_n_components s \<or>
    (\<exists>e. kfold_split T (random_state s) (sequences s) = Inl e) \<or>
    kfold_split T (random_state s) (sequences s) = Inr []"
  then show "snd (SelectorCV_select T s) = s" by (rule SelectorCV_select_untouched)
next
  assume h: "3 \<le> length (sequences s) \<and> min_n_components s \<le> max_n_components s \<and>
    kfold_split T (random_state s) (sequences s) = Inr fs \<and>
    last_evaluated T s (max_n_components s) fs = Some (tr, te) \<and>
    combine_sequences tr (sequences s) = Inr (a, b)"
  let ?mx = "max_n_components s"
  have rng: "[min_n_components s .. ?mx] = [min_n_components s .. ?mx - 1] @ [?mx]"
    using h by (simp add: upto_rec2)
  from CV_loop_frame[where T = T and ns = "[min_n_components s .. ?mx - 1]" and s = s
      and a = "X s" and b = "lengths s" and mv = None and acc = "[]"]
  obtain a0 b0 mv0 acc0 where
    pre: "CV_loop T [min_n_components s .. ?mx - 1] (s, None, []) =
            (s\<lparr>X := a0, lengths := b0\<rparr>, mv0, acc0)" by auto
  let ?s1 = "s\<lparr>X := a0, lengths := b0\<rparr>"
  have "fst (CV_try T ?mx (?s1, mv0, acc0)) = fst (snd (CV_folds T ?mx fs ?s1 mv0 []))"
    by (rule CV_try_selector) (use h in simp_all)
  also have "\<dots> = s\<lparr>X := a, lengths := b\<rparr>"
  proof -
    from h have le: "last_evaluated T s ?mx fs = Some (tr, te)"
      and cs: "combine_sequences tr (sequences s) = Inr (a, b)" by simp_all
    show ?thesis by (rule CV_folds_last[OF le cs])
  qed
  finally have "fst (CV_loop T [min_n_components s .. ?mx] (s, None, [])) = s\<lparr>X := a, lengths := b\<rparr>"
    unfolding rng CV_loop_append pre by simp
  then show r: "snd (SelectorCV_select T s) = s\<lparr>X := a, lengths := b\<rparr>"
    by (simp add: SelectorCV_select_def case_prod_unfold)
  assume "length tr < length (sequences s) \<and> length (lengths s) = length (sequences s)"
  moreover have "length b = length tr" using combine_sequences_length h by blast
  ultimately show "lengths (snd (SelectorCV_select T s)) \<noteq> lengths s"
    unfolding r by auto
qed

theorem SelectorCV_select_frame_witness:
  "3 \<le> length (sequences selector0) \<and>
   min_n_components selector0 \<le> max_n_components selector0 \<and>
   kfold_split stub_trainer (random_state selector0) (sequences selector0) =
     Inr [([1, 2], [0]), ([0, 2], [1]), ([0, 1], [2])] \<and>
   last_evaluated stub_trainer selector0 (max_n_components selector0)
     [([1, 2], [0]), ([0, 2], [1]), ([0, 1], [2])] = Some ([1, 2], [0]) \<and>
   combine_sequences [1, 2] (sequences selector0) = Inr ([[2], [3], [4]], [1, 2]) \<and>
   length [1, 2 :: nat] < length (sequences selector0) \<and>
   length (lengths selector0) = length (sequences selector0) \<and>
   snd (SelectorCV_select stub_trainer selector0) =
     selector0\<lparr>X := [[2], [3], [4]], lengths := [1, 2]\<rparr> \<and>
   lengths (snd (SelectorCV_select stub_trainer selector0)) \<noteq> lengths selector0 \<and>
   length (sequences selector1) < 3 \<and>
   snd (SelectorCV_select stub_trainer selector1) = selector1 \<and>
   kfold_split five_fold_trainer (random_state selector0) (sequences selector0) = Inl ValueError \<and>
   snd (SelectorCV_select five_fold_trainer selector0) = selector0"
proof -
  have l0: "3 \<le> length (sequences selector0)"
    and m0: "min_n_components selector0 \<le> max_n_components selector0"
    and t0: "length [1, 2 :: nat] < length (sequences selector0)"
    and i0: "length (lengths selector0) = length (sequences selector0)"
    by (simp_all add: selector0_def)
  have l1: "length (sequences selector1) < 3" by (simp add: selector1_def)
  from l0 m0 t0 i0 l1 kfold0 last_evaluated0 combine0 kfold_five
    SelectorCV_select_frame[of stub_trainer selector0
      "[([1, 2], [0]), ([0, 2], [1]), ([0, 1], [2])]" "[1, 2]" "[0]" "[[2], [3], [4]]" "[1, 2]"]
    SelectorCV_select_frame[of stub_trainer selector1]
    SelectorCV_select_frame[of five_fold_trainer selector0]
  show ?thesis by blast
qed

section \<open>The sibling strategies when every fit fails\<close>

text \<open>
  What claim C1 says does hold for the three implemented strategies: with a trainer whose
  fit fails for every request, each of them returns \<^verbatim>\<open>None\<close>.
\<close>

lemma BIC_try_fit_fails:
  "fit T n (random_state s) (X s) (lengths s) = Inl e \<Longrightarrow> BIC_try T s n = Inl AttributeError"
  by (simp add: BIC_try_def base_model_def model_score_def)

lemma BIC_loop_all_raise:
  assumes "\<forall>n. \<exists>e. BIC_try T s n = Inl e"
  shows "BIC_loop T s ns acc = acc"
proof (induction ns)
  case Nil
  show ?case by simp
next
  case (Cons n ns)
  from assms obtain e where "BIC_try T s n = Inl e" by blast
  with Cons show ?case by simp
qed

lemma BIC_loop_fit_fails:
  assumes "\<forall>n seed obs lens. \<exists>e. fit T n seed obs lens = Inl e"
  shows "BIC_loop T s ns acc = acc"
proof (rule BIC_loop_all_raise, rule allI)
  fix n
  from assms obtain e where "fit T n (random_state s) (X s) (lengths s) = Inl e" by blast
  from BIC_try_fit_fails[OF this] show "\<exists>e. BIC_try T s n = Inl e" by blast
qed

text \<open>
  A word with no observation row has no first row to read \<open>d\<close> from: every candidate
  raises and \<^verbatim>\<open>SelectorBIC.select\<close> returns \<^verbatim>\<open>None\<close>.
\<close>

lemma SelectorBIC_select_no_rows:
  assumes "X s = []"
  shows "SelectorBIC_select T s = Inr None"
proof -
  have "\<forall>n. \<exists>e. BIC_try T s n = Inl e" using BIC_try_empty[OF assms] by blast
  from BIC_loop_all_raise[OF this] show ?thesis by (simp add: SelectorBIC_select_def)
qed

lemma cv_quality_fit_fails:
  assumes ff: "\<forall>n seed obs lens. \<exists>e. fit T n seed obs lens = Inl e"
    and H: "3 \<le> length (sequences s) \<longrightarrow> kfold_split T (random_state s) (sequences s) \<noteq> Inr []"
  shows "cv_quality T s n = None"
proof (cases "length (sequences s) < 3")
  case True
  from ff obtain e where "fit T n (random_state s) (X s) (lengths s) = Inl e" by blast
  with True show ?thesis by (simp add: cv_quality_def)
next
  case False
  show ?thesis
  proof (cases "kfold_split T (random_state s) (sequences s)")
    case (Inl e)
    with False show ?thesis by (simp add: cv_quality_def)
  next
    case (Inr fs)
    with H False obtain f gs where fs: "fs = f # gs" by (cases fs) auto
    have "fold_result T s n f = None"
    proof (cases "combine_sequences (fst f) (sequences s)")
      case (Inl e)
      then show ?thesis by (simp add: fold_result_def)
    next
      case (Inr ab)
      obtain a b where ab: "ab = (a, b)" by (cases ab)
      from ff obtain e where "fit T n (random_state s) a b = Inl e" by blast
      with Inr ab show ?thesis by (auto simp: fold_result_def split: sum.splits prod.splits)
    qed
    with False Inr fs show ?thesis by (simp add: cv_quality_def)
  qed
qed

lemma siblings_return_None_when_all_fits_fail:
  assumes ff: "\<forall>n seed obs lens. \<exists>e. fit T n seed obs lens = Inl e"
  shows "fst (select SelectorConstant T s) = Inr None \<and>
         fst (select SelectorBIC T s) = Inr None \<and>
         fst (select SelectorCV T s) = Inr None"
proof -
  from ff obtain e where "fit T (n_constant s) (random_state s) (X s) (lengths s) = Inl e" by blast
  then have c: "fst (select SelectorConstant T s) = Inr None"
    by (simp add: SelectorConstant_select_def base_model_def)
  have b: "fst (select SelectorBIC T s) = Inr None"
    by (simp add: SelectorBIC_select_def BIC_loop_fit_fails[OF ff])
  have v: "fst (select SelectorCV T s) = Inr None"
  proof (cases "3 \<le> length (sequences s) \<and> kfold_split T (random_state s) (sequences s) = Inr []")
    case True
    then have "CV_loop T [min_n_components s .. max_n_components s] (s, None, []) = (s, None, [])"
      by (intro CV_loop_no_folds) simp_all
    then show ?thesis by (simp add: SelectorCV_select_def)
  next
    case False
    then have H: "3 \<le> length (sequences s) \<longrightarrow>
                  kfold_split T (random_state s) (sequences s) \<noteq> Inr []" by blast
    then have H': "\<not> length (sequences s) < 3 \<longrightarrow>
                  kfold_split T (random_state s) (sequences s) \<noteq> Inr []" by simp
    let ?ns = "[min_n_components s .. max_n_components s]"
    have "length (sequences s) < 3 \<longrightarrow> X s = X s \<and> lengths s = lengths s" by simp
    from CV_loop_entries[OF H' this, where ns = ?ns and mv = None and acc = "[]"]
    obtain a' b' mv' where
      l: "CV_loop T ?ns (s, None, []) =
            (s\<lparr>X := a', lengths := b'\<rparr>, mv', concat (map (cv_entries T s) ?ns))" by auto
    have "cv_entries T s n = []" for n
      using cv_quality_fit_fails[OF ff H] by (simp add: cv_entries_def)
    then have "concat (map (cv_entries T s) ?ns) = []" by simp
    with l show ?thesis by (simp add: SelectorCV_select_def)
  qed
  from c b v show ?thesis by simp
qed

end
